theory Spec2Isabelle
  imports Main "HOL-Library.Multiset"
begin

section \<open>Strings as the engine sees them\<close>

text \<open>
  Strings are lists of 8-bit code units. \<open>String.prototype.trim\<close> and the regular
  expression class \<open>\s\<close> remove the white space and line terminator code units; below
  256 these are tab, line feed, vertical tab, form feed, carriage return, space and the
  no-break space.
\<close>

definition is_space :: "char \<Rightarrow> bool" where
  "is_space c = (c = CHR 0x09 \<or> c = CHR 0x0A \<or> c = CHR 0x0B \<or> c = CHR 0x0C
     \<or> c = CHR 0x0D \<or> c = CHR 0x20 \<or> c = CHR 0xA0)"

definition trim :: "string \<Rightarrow> string" where
  "trim s = rev (dropWhile is_space (rev (dropWhile is_space s)))"

text \<open>\<open>String.prototype.charAt\<close>: the empty string when the index is out of range.\<close>

definition charAt :: "string \<Rightarrow> int \<Rightarrow> string" where
  "charAt s i = (if 0 \<le> i \<and> i < int (length s) then [s ! nat i] else [])"

text \<open>
  \<open>String.prototype.split\<close> with a regular expression that matches exactly one code
  unit of a class: the pieces between the separators, always at least one piece.
\<close>

fun split_on :: "(char \<Rightarrow> bool) \<Rightarrow> string \<Rightarrow> string list" where
  "split_on p [] = [[]]"
| "split_on p (c # cs) =
     (if p c then [] # split_on p cs
      else (case split_on p cs of
              [] \<Rightarrow> [[c]]
            | x # xs \<Rightarrow> (c # x) # xs))"

text \<open>\<open>Array.prototype.join\<close> on an array of strings.\<close>

fun join :: "string \<Rightarrow> string list \<Rightarrow> string" where
  "join sep [] = []"
| "join sep [x] = x"
| "join sep (x # y # ys) = x @ sep @ join sep (y # ys)"

section \<open>JavaScript values\<close>

text \<open>
  The values that manifests, options and template data are made of. Numbers are the
  integers; \<open>JHost\<close> is an instance of a class of a library (a logger, the cache, the
  manifest parser), named by its class and carrying its settings. An object is the list
  of its own properties in iteration order; properties inherited from a prototype are not
  part of the model.
\<close>

datatype jsval =
    JUndefined
  | JNull
  | JBool bool
  | JNum int
  | JStr string
  | JArr "jsval list"
  | JObj "(string \<times> jsval) list"
  | JHost string "(string \<times> jsval) list"

datatype js_error = TypeError | RangeError | ENOENT string

fun truthy :: "jsval \<Rightarrow> bool" where
  "truthy JUndefined = False"
| "truthy JNull = False"
| "truthy (JBool b) = b"
| "truthy (JNum n) = (n \<noteq> 0)"
| "truthy (JStr s) = (s \<noteq> [])"
| "truthy (JArr xs) = True"
| "truthy (JObj kvs) = True"
| "truthy (JHost c kvs) = True"

definition digit_char :: "nat \<Rightarrow> char" where
  "digit_char d = char_of (48 + d)"

fun show_nat :: "nat \<Rightarrow> string" where
  "show_nat n = (if n < 10 then [digit_char n] else show_nat (n div 10) @ [digit_char (n mod 10)])"

declare show_nat.simps [simp del]

definition show_int :: "int \<Rightarrow> string" where
  "show_int i = (if i < 0 then CHR ''-'' # show_nat (nat (- i)) else show_nat (nat i))"

text \<open>\<open>ToString\<close>, as a replacement value of \<open>String.prototype.replace\<close> undergoes it.\<close>

fun to_string :: "jsval \<Rightarrow> string" where
  "to_string JUndefined = ''undefined''"
| "to_string JNull = ''null''"
| "to_string (JBool b) = (if b then ''true'' else ''false'')"
| "to_string (JNum n) = show_int n"
| "to_string (JStr s) = s"
| "to_string (JArr xs) =
     join '','' (map (\<lambda>x. if x = JUndefined \<or> x = JNull then [] else to_string x) xs)"
| "to_string (JObj kvs) = ''[object Object]''"
| "to_string (JHost c kvs) = ''[object Object]''"

definition is_digit :: "char \<Rightarrow> bool" where
  "is_digit c = (48 \<le> (of_char c :: nat) \<and> (of_char c :: nat) \<le> 57)"

definition digit_val :: "char \<Rightarrow> nat" where
  "digit_val c = of_char c - 48"

definition read_nat :: "string \<Rightarrow> nat" where
  "read_nat s = foldl (\<lambda>n c. 10 * n + digit_val c) 0 s"

text \<open>
  The key of the property access \<open>structure[+segment || segment]\<close>. A segment of
  decimal digits is turned into a number and, unless that number is zero, back into its
  canonical decimal form; any other segment is used as it is. (Signs, fractions,
  exponents, hexadecimal forms and surrounding white space, which unary plus also
  accepts, are outside the model.)
\<close>

definition segment_key :: "string \<Rightarrow> string" where
  "segment_key seg =
     (if seg \<noteq> [] \<and> list_all is_digit seg \<and> read_nat seg \<noteq> 0
      then show_nat (read_nat seg) else seg)"

definition array_index :: "string \<Rightarrow> nat option" where
  "array_index k =
     (if k \<noteq> [] \<and> list_all is_digit k \<and> show_nat (read_nat k) = k
      then Some (read_nat k) else None)"

text \<open>
  The property access \<open>structure[key]\<close>: a \<open>TypeError\<close> on \<open>undefined\<close> and \<open>null\<close>,
  \<open>undefined\<close> for a property that is not there.
\<close>

fun get_prop :: "jsval \<Rightarrow> string \<Rightarrow> js_error + jsval" where
  "get_prop JUndefined k = Inl TypeError"
| "get_prop JNull k = Inl TypeError"
| "get_prop (JBool b) k = Inr JUndefined"
| "get_prop (JNum n) k = Inr JUndefined"
| "get_prop (JStr s) k =
     (if k = ''length'' then Inr (JNum (int (length s)))
      else (case array_index k of
              Some i \<Rightarrow> (if i < length s then Inr (JStr [s ! i]) else Inr JUndefined)
            | None \<Rightarrow> Inr JUndefined))"
| "get_prop (JArr xs) k =
     (if k = ''length'' then Inr (JNum (int (length xs)))
      else (case array_index k of
              Some i \<Rightarrow> (if i < length xs then Inr (xs ! i) else Inr JUndefined)
            | None \<Rightarrow> Inr JUndefined))"
| "get_prop (JObj kvs) k = (case map_of kvs k of Some v \<Rightarrow> Inr v | None \<Rightarrow> Inr JUndefined)"
| "get_prop (JHost c kvs) k = (case map_of kvs k of Some v \<Rightarrow> Inr v | None \<Rightarrow> Inr JUndefined)"

section \<open>Templates: \<open>Square.prototype.template\<close>\<close>

text \<open>The loop of \<open>getObjectByKey\<close> over the segments of a dotted path.\<close>

fun walk :: "jsval \<Rightarrow> string list \<Rightarrow> js_error + jsval" where
  "walk result [] = Inr result"
| "walk structure (p # ps) =
     (case get_prop structure (segment_key p) of
        Inl e \<Rightarrow> Inl e
      | Inr result \<Rightarrow> walk result ps)"

definition getObjectByKey :: "jsval \<Rightarrow> string \<Rightarrow> js_error + jsval" where
  "getObjectByKey data prop =
     (if prop = [] \<or> CHR ''.'' \<notin> set prop then get_prop data prop
      else (case walk data (split_on (\<lambda>c. c = CHR ''.'') prop) of
              Inl e \<Rightarrow> Inl e
            | Inr result \<Rightarrow> (if truthy result then Inr result else get_prop data prop)))"

text \<open>The replacement function: \<open>getObjectByKey(data, prop) || ''\<close>, as a string.\<close>

definition replace_tag :: "jsval \<Rightarrow> string \<Rightarrow> js_error + string" where
  "replace_tag data prop =
     (case getObjectByKey data prop of
        Inl e \<Rightarrow> Inl e
      | Inr v \<Rightarrow> Inr (if truthy v then to_string v else []))"

text \<open>
  The pattern \<open>/\{([^\{]+?)\}/g\<close>. After an opening brace the group takes one code unit
  that is not an opening brace and then as few more as needed to reach a closing brace.
  \<open>tag_body\<close> returns the group and the text after the match.
\<close>

fun tag_body :: "string \<Rightarrow> string \<Rightarrow> (string \<times> string) option" where
  "tag_body acc [] = None"
| "tag_body acc (d # ds) =
     (if d = CHR ''}'' then Some (acc, ds)
      else if d = CHR ''{'' then None
      else tag_body (acc @ [d]) ds)"

definition match_tag :: "string \<Rightarrow> (string \<times> string) option" where
  "match_tag cs =
     (case cs of
        [] \<Rightarrow> None
      | c # rest \<Rightarrow> (if c = CHR ''{'' then None else tag_body [c] rest))"

lemma tag_body_shorter: "tag_body acc ds = Some (p, r) \<Longrightarrow> length r < length ds"
proof (induction ds arbitrary: acc)
  case Nil
  then show ?case by simp
next
  case (Cons d ds)
  show ?case
  proof (cases "d = CHR ''}'' \<or> d = CHR ''{''")
    case True
    then show ?thesis using Cons.prems by (auto split: if_splits)
  next
    case False
    then have "tag_body (acc @ [d]) ds = Some (p, r)"
      using Cons.prems by simp
    then have "length r < length ds" by (rule Cons.IH)
    then show ?thesis by simp
  qed
qed

lemma match_tag_shorter: "length r < length cs" if "match_tag cs = Some (p, r)"
proof (cases cs)
  case Nil
  then show ?thesis using that by (simp add: match_tag_def)
next
  case (Cons c rest)
  then have "tag_body [c] rest = Some (p, r)"
    using that by (simp add: match_tag_def split: if_splits)
  then have "length r < length rest" by (rule tag_body_shorter)
  then show ?thesis using Cons by simp
qed

function replace_tags :: "(string \<Rightarrow> js_error + string) \<Rightarrow> string \<Rightarrow> js_error + string" where
  "replace_tags f [] = Inr []"
| "replace_tags f (c # cs) =
     (if c = CHR ''{'' \<and> match_tag cs \<noteq> None
      then (case f (fst (the (match_tag cs))) of
              Inl e \<Rightarrow> Inl e
            | Inr s \<Rightarrow> (case replace_tags f (snd (the (match_tag cs))) of
                          Inl e \<Rightarrow> Inl e
                        | Inr t \<Rightarrow> Inr (s @ t)))
      else (case replace_tags f cs of
              Inl e \<Rightarrow> Inl e
            | Inr t \<Rightarrow> Inr (c # t)))"
  by pat_completeness auto
termination
proof (relation "measure (\<lambda>(f, s). length s)")
  show "wf (measure (\<lambda>(f, s). length s))" by simp
next
  fix f :: "string \<Rightarrow> js_error + string" and c cs x
  assume "c = CHR ''{'' \<and> match_tag cs \<noteq> None"
  then obtain p r where m: "match_tag cs = Some (p, r)" by auto
  have "length r < length cs" using m by (rule match_tag_shorter)
  then show "((f, snd (the (match_tag cs))), f, c # cs) \<in> measure (\<lambda>(f, s). length s)"
    using m by simp
next
  fix f :: "string \<Rightarrow> js_error + string" and c cs
  show "((f, cs), f, c # cs) \<in> measure (\<lambda>(f, s). length s)" by simp
qed

text \<open>
  \<open>template(str, data)\<close>; \<open>tagged\<close> is what \<open>this.tag()\<close> returns, used when \<open>data\<close> is
  falsy.
\<close>

definition template :: "jsval \<Rightarrow> string \<Rightarrow> jsval \<Rightarrow> js_error + string" where
  "template tagged str data =
     replace_tags (replace_tag (if truthy data then data else tagged)) str"

section \<open>The middleware loop: \<open>Square.prototype.forEach\<close>\<close>










text \<open>
  The collection object of a build and the layers of the spec's examples. \<open>addSuffix\<close>,
  \<open>ok\<close> and \<open>neverRun\<close> hand over a new object; \<open>noop\<close> touches nothing and hands
  nothing over; \<open>scribble\<close> changes the object it is handed in place and hands nothing
  over; \<open>throws\<close> throws its argument.
\<close>

record coll =
  content :: string
  extension :: string
  platform :: string
  distribution :: string











section \<open>The constructor: \<open>Square(options)\<close>\<close>

text \<open>
  An instance is the map of its own properties. \<open>Logger.levels\<close> of the logging
  library and the exported object of \<open>../static\<close> are parameters.
\<close>

type_synonym sq_instance = "string \<rightharpoonup> jsval"

record levels =
  lv_error :: int
  lv_log :: int
  lv_debug :: int

text \<open>
  The own enumerable properties of a value, \<open>None\<close> for a primitive (on which the
  operator \<open>in\<close> raises a \<open>TypeError\<close>).
\<close>

fun own_properties :: "jsval \<Rightarrow> (string \<times> jsval) list option" where
  "own_properties (JObj kvs) = Some kvs"
| "own_properties (JHost c kvs) = Some kvs"
| "own_properties (JArr xs) = Some (zip (map show_nat [0..<length xs]) xs)"
| "own_properties v = None"

definition option_or :: "(string \<times> jsval) list \<Rightarrow> string \<Rightarrow> jsval \<Rightarrow> jsval" where
  "option_or kvs k dflt = (case map_of kvs k of Some v \<Rightarrow> v | None \<Rightarrow> dflt)"

definition new_logger :: "levels \<Rightarrow> (string \<times> jsval) list \<Rightarrow> jsval" where
  "new_logger lv opts =
     JHost ''Logger''
       [(''timestamp'', JBool False),
        (''namespacing'', JNum (- 1)),
        (''notification'', option_or opts ''log notification level'' (JNum (lv_debug lv))),
        (''level'', option_or opts ''log level'' (JNum (lv_log lv))),
        (''base'', (case map_of opts ''disable log transport'' of
                      Some v \<Rightarrow> JBool (\<not> truthy v)
                    | None \<Rightarrow> JBool True))]"

fun set_key :: "string \<Rightarrow> jsval \<Rightarrow> (string \<times> jsval) list \<Rightarrow> (string \<times> jsval) list" where
  "set_key k v [] = [(k, v)]"
| "set_key k v ((k', v') # kvs) = (if k = k' then (k, v) # kvs else (k', v') # set_key k v kvs)"

text \<open>
  The setter of the accessor property \<open>stdout\<close>. It calls \<open>this.logger.set\<close>, which
  only a logger has.
\<close>

definition setSTDOUT :: "levels \<Rightarrow> sq_instance \<Rightarrow> jsval \<Rightarrow> js_error + sq_instance" where
  "setSTDOUT lv inst b =
     (case inst ''logger'' of
        Some (JHost c kvs) \<Rightarrow>
          (if c = ''Logger''
           then Inr (inst(''logger'' \<mapsto>
                        JHost c (set_key ''level''
                          (JNum (if truthy b then lv_error lv else lv_log lv)) kvs),
                      ''standardOutput'' \<mapsto> JBool (truthy b)))
           else Inl TypeError)
      | _ \<Rightarrow> Inl TypeError)"

text \<open>\<open>_.extend(this, options)\<close>: every property of the options is assigned to the instance.\<close>

fun extend :: "levels \<Rightarrow> sq_instance \<Rightarrow> (string \<times> jsval) list \<Rightarrow> js_error + sq_instance" where
  "extend lv inst [] = Inr inst"
| "extend lv inst ((k, v) # kvs) =
     (if k = ''stdout''
      then (case setSTDOUT lv inst v of
              Inl e \<Rightarrow> Inl e
            | Inr inst' \<Rightarrow> extend lv inst' kvs)
      else extend lv (inst(k \<mapsto> v)) kvs)"

definition Square :: "jsval \<Rightarrow> levels \<Rightarrow> jsval \<Rightarrow> js_error + sq_instance" where
  "Square static lv options =
     (case own_properties (if truthy options then options else JObj []) of
        None \<Rightarrow> Inl TypeError
      | Some opts \<Rightarrow>
          (case extend lv
                  [''cache'' \<mapsto> JHost ''Expires'' [(''expire'', JStr ''3 minutes'')],
                   ''logger'' \<mapsto> new_logger lv opts,
                   ''eson'' \<mapsto> JHost ''eson'' []]
                  opts of
             Inl e \<Rightarrow> Inl e
           | Inr inst \<Rightarrow>
               Inr (inst(''config'' \<mapsto> static,
                         ''middleware'' \<mapsto> JArr [],
                         ''storages'' \<mapsto> JArr [],
                         ''package'' \<mapsto> JObj []))))"

section \<open>Critical errors: \<open>Square.prototype.critical\<close>\<close>

text \<open>
  In CLI mode \<open>critical\<close> ends the process with status 1. Otherwise it emits an
  \<open>error\<close> event and returns \<open>false\<close>; an \<open>error\<close> event that nobody listens to is
  thrown by the emitter. The formatted message is kept as a value.
\<close>

datatype sq_error =
    BundleMissing string
  | DependencyMissing string string
  | DirectiveMissing string "string option"
  | DirectiveCycle string

datatype abort = Exit sq_error | Uncaught sq_error | UncaughtJs js_error

record engine =
  cli :: bool
  listening :: bool

definition critical :: "engine \<Rightarrow> sq_error \<Rightarrow> sq_error list \<Rightarrow> abort + sq_error list" where
  "critical eng err emitted =
     (if \<not> cli eng
      then (if listening eng then Inr (emitted @ [err]) else Inl (Uncaught err))
      else Inl (Exit err))"

section \<open>Manifests: \<open>Square.prototype.parse\<close>\<close>

text \<open>
  A bundle as the manifest declares it: its weight, when it has one, and its list of
  dependencies, when it has one. The key \<open>bundle\<close> of a manifest is an object keyed by
  file path, in iteration order, or an array of file paths.
\<close>

record bundle_obj =
  b_weight :: "int option"
  b_dependencies :: "string list option"

datatype bundle_decl = BundleMap "(string \<times> bundle_obj) list" | BundleArray "string list"

text \<open>
  The order in which an object hands out its own properties to \<open>for \<dots> in\<close>, on which
  \<open>_.forEach\<close> and \<open>Object.keys\<close> rest: the keys that are array indices first, by
  ascending number, then the other keys in the order of their creation. An array index
  is the canonical decimal form of a number below \<open>2^32 - 1\<close>. The manifest is read with
  \<open>JSON.parse\<close>, which creates the properties in the order of the text, so
  \<open>property_order\<close> takes the bundles as the manifest declares them to the bundles as
  \<open>parse\<close> meets them.
\<close>

definition index_key :: "string \<Rightarrow> nat option" where
  "index_key k =
     (case array_index k of
        Some i \<Rightarrow> (if int i < 4294967295 then Some i else None)
      | None \<Rightarrow> None)"

fun insert_index :: "string \<times> 'a \<Rightarrow> (string \<times> 'a) list \<Rightarrow> (string \<times> 'a) list" where
  "insert_index x [] = [x]"
| "insert_index x (y # ys) =
     (if read_nat (fst x) \<le> read_nat (fst y) then x # y # ys else y # insert_index x ys)"

fun sort_index :: "(string \<times> 'a) list \<Rightarrow> (string \<times> 'a) list" where
  "sort_index [] = []"
| "sort_index (x # xs) = insert_index x (sort_index xs)"

definition property_order :: "(string \<times> 'a) list \<Rightarrow> (string \<times> 'a) list" where
  "property_order kvs =
     sort_index (filter (\<lambda>kv. index_key (fst kv) \<noteq> None) kvs)
     @ filter (\<lambda>kv. index_key (fst kv) = None) kvs"

text \<open>
  \<open>createBundle(path, index)\<close>: the weight is \<open>+index || (\<dots>)\<close>, where the alternative
  is the number of keys of \<open>this.package.bundle\<close> when that is an object and 1 otherwise.
\<close>

definition createBundle :: "bundle_decl \<Rightarrow> string \<Rightarrow> nat \<Rightarrow> bundle_obj" where
  "createBundle pkg_bundle path index =
     \<lparr>b_weight = Some (if index \<noteq> 0 then int index
                       else (case pkg_bundle of
                               BundleMap kvs \<Rightarrow> int (length kvs)
                             | BundleArray fs \<Rightarrow> 1)),
      b_dependencies = None\<rparr>"

text \<open>
  \<open>Array.prototype.reduce\<close> with an initial value; \<open>None\<close> is \<open>undefined\<close>. The callback
  of \<open>parse\<close> assigns \<open>memo[file]\<close>, which raises a \<open>TypeError\<close> when \<open>memo\<close> is
  \<open>undefined\<close>, and has no \<open>return\<close> statement, so it returns \<open>undefined\<close>.
\<close>

fun array_reduce ::
  "('m option \<Rightarrow> 'a \<Rightarrow> nat \<Rightarrow> js_error + 'm option) \<Rightarrow> 'm option \<Rightarrow> 'a list \<Rightarrow> nat
   \<Rightarrow> js_error + 'm option" where
  "array_reduce f memo [] i = Inr memo"
| "array_reduce f memo (x # xs) i =
     (case f memo x i of
        Inl e \<Rightarrow> Inl e
      | Inr memo' \<Rightarrow> array_reduce f memo' xs (Suc i))"

definition bundle_callback ::
  "bundle_decl \<Rightarrow> (string \<times> bundle_obj) list option \<Rightarrow> string \<Rightarrow> nat
   \<Rightarrow> js_error + (string \<times> bundle_obj) list option" where
  "bundle_callback pkg_bundle memo file index =
     (case memo of
        None \<Rightarrow> Inl TypeError
      | Some m \<Rightarrow> (let assigned = m @ [(file, createBundle pkg_bundle file index)] in Inr None))"

definition bundles_of :: "bundle_decl \<Rightarrow> js_error + (string \<times> bundle_obj) list option" where
  "bundles_of decl =
     (case decl of
        BundleMap kvs \<Rightarrow> Inr (Some kvs)
      | BundleArray fs \<Rightarrow> array_reduce (bundle_callback decl) (Some []) fs 0)"

text \<open>
  The host of a parse: which paths exist, \<open>helper.base\<close> applied to the directory of the
  manifest, \<open>path.resolve\<close>, and \<open>helper.weight\<close>. The module \<open>./helpers\<close> is not among
  the sources, so \<open>helper.weight\<close> is a field of the host; its result is a number, of
  which the model uses the order only.
\<close>

record 'w host =
  on_disk :: "string \<Rightarrow> bool"
  base :: "string \<Rightarrow> string"
  resolve :: "string \<Rightarrow> string"
  helper_weight :: "int \<Rightarrow> nat \<Rightarrow> 'w"

text \<open>
  Modelled from the spec: \<open>helper.weight\<close> of the module \<open>./helpers\<close>, which is not among
  the sources. The spec gives the weight of a bundle as an integer, explicit or derived:
  the weight the bundle declares, and, when it declares none, the number of bundles
  remaining at parse time. \<open>parse\<close> calls \<open>helper.weight(+bundle.weight || 1, size--)\<close>, so
  a bundle without a weight arrives as the amount 1, with the number of bundles remaining.
\<close>

definition helpers_weight :: "int \<Rightarrow> nat \<Rightarrow> int" where
  "helpers_weight amount bundles_left = (if amount = 1 then int bundles_left else amount)"

text \<open>A bundle of the tree: its key, its location, its weight and its dependencies.\<close>

record 'w node =
  key :: string
  location :: string
  weight :: 'w
  dependencies :: "string option list option"

record 'w parsed =
  tree :: "'w node list"
  files :: "string list"
  all_dependencies :: "string list"
  remaining :: nat
  emitted :: "sq_error list"

text \<open>\<open>+bundle.weight || 1\<close>.\<close>

definition amount :: "bundle_obj \<Rightarrow> int" where
  "amount b = (case b_weight b of None \<Rightarrow> 1 | Some w \<Rightarrow> (if w = 0 then 1 else w))"

text \<open>
  The \<open>map\<close> over the dependencies of one bundle. A dependency that does not exist is a
  critical error; when \<open>critical\<close> returns, its \<open>false\<close> takes the place of the path.
\<close>

fun map_dependencies ::
  "engine \<Rightarrow> 'w host \<Rightarrow> string \<Rightarrow> string list \<Rightarrow> 'w parsed \<Rightarrow> abort + (string option list \<times> 'w parsed)" where
  "map_dependencies eng h loc [] st = Inr ([], st)"
| "map_dependencies eng h loc (d # ds) st =
     (let dep = resolve h (base h d) in
      if \<not> on_disk h dep
      then (case critical eng (DependencyMissing dep loc) (emitted st) of
              Inl a \<Rightarrow> Inl a
            | Inr em \<Rightarrow>
                (case map_dependencies eng h loc ds (st\<lparr>emitted := em\<rparr>) of
                   Inl a \<Rightarrow> Inl a
                 | Inr (rs, st') \<Rightarrow> Inr (None # rs, st')))
      else (case map_dependencies eng h loc ds
                   (st\<lparr>all_dependencies := all_dependencies st @ [dep]\<rparr>) of
              Inl a \<Rightarrow> Inl a
            | Inr (rs, st') \<Rightarrow> Inr (Some dep # rs, st')))"

text \<open>
  The loop over the bundles. A bundle whose file does not exist is a critical error;
  when \<open>critical\<close> returns, the callback returns its \<open>false\<close>, which ends the loop of
  \<open>_.forEach\<close>. (The index of output extensions, built in the same loop, takes no part
  in the tree and is left out.)
\<close>

fun bundle_loop ::
  "engine \<Rightarrow> 'w host \<Rightarrow> (string \<times> bundle_obj) list \<Rightarrow> 'w parsed \<Rightarrow> abort + 'w parsed" where
  "bundle_loop eng h [] st = Inr st"
| "bundle_loop eng h ((loc, b) # rest) st =
     (if \<not> on_disk h (base h loc)
      then (case critical eng (BundleMissing (base h loc)) (emitted st) of
              Inl a \<Rightarrow> Inl a
            | Inr em \<Rightarrow> Inr (st\<lparr>emitted := em\<rparr>))
      else
        (let st1 = st\<lparr>files := files st @ [base h loc], remaining := remaining st - 1\<rparr>;
             w = helper_weight h (amount b) (remaining st)
         in case b_dependencies b of
              None \<Rightarrow>
                bundle_loop eng h rest
                  (st1\<lparr>tree := tree st1 @
                     [\<lparr>key = loc, location = base h loc, weight = w, dependencies = None\<rparr>]\<rparr>)
            | Some ds \<Rightarrow>
                (case map_dependencies eng h loc ds st1 of
                   Inl a \<Rightarrow> Inl a
                 | Inr (rs, st2) \<Rightarrow>
                     bundle_loop eng h rest
                       (st2\<lparr>tree := tree st2 @
                          [\<lparr>key = loc, location = base h loc, weight = w,
                            dependencies = Some rs\<rparr>]\<rparr>))))"

text \<open>
  \<open>tree.sort(function (a, b) { return b.weight - a.weight })\<close>: the order the comparator
  asks for, heaviest first, equal weights staying in their order.
\<close>

fun insert_desc :: "('w::linorder) node \<Rightarrow> 'w node list \<Rightarrow> 'w node list" where
  "insert_desc x [] = [x]"
| "insert_desc x (y # ys) =
     (if weight x < weight y then y # insert_desc x ys else x # y # ys)"

fun sort_desc :: "('w::linorder) node list \<Rightarrow> 'w node list" where
  "sort_desc [] = []"
| "sort_desc (x # xs) = insert_desc x (sort_desc xs)"

text \<open>
  \<open>parse\<close> from the point where the manifest has been read and its configuration
  merged, for a manifest without \<open>configuration.import\<close>: the bundles of an array are
  reduced to an object, the keys of that object are counted (\<open>Object.keys\<close> raises a
  \<open>TypeError\<close> on \<open>undefined\<close>), the bundles are looped over and the tree is sorted.
\<close>

definition parse :: "engine \<Rightarrow> ('w::linorder) host \<Rightarrow> bundle_decl \<Rightarrow> abort + 'w parsed" where
  "parse eng h decl =
     (case bundles_of decl of
        Inl e \<Rightarrow> Inl (UncaughtJs e)
      | Inr None \<Rightarrow> Inl (UncaughtJs TypeError)
      | Inr (Some kvs) \<Rightarrow>
          (case bundle_loop eng h kvs
                  \<lparr>tree = [], files = [], all_dependencies = [],
                   remaining = length kvs, emitted = []\<rparr> of
             Inl a \<Rightarrow> Inl a
           | Inr st \<Rightarrow> Inr (st\<lparr>tree := sort_desc (tree st)\<rparr>)))"

section \<open>Comments: \<open>Square.prototype.commentWrap\<close>\<close>

text \<open>
  The comment styles of \<open>./comments\<close> are not among the sources; the style of an
  extension, \<open>commentStyles.ext[extension] || commentStyles.styles[extension]\<close>, is a
  parameter of the host.
\<close>

record comment_style =
  header :: string
  body :: string
  footer :: string

text \<open>The character class \<open>[\n|\r]\<close> of the split: it holds the bar as well.\<close>

definition wrap_break :: "char \<Rightarrow> bool" where
  "wrap_break c = (c = CHR 0x0A \<or> c = CHR ''|'' \<or> c = CHR 0x0D)"

definition wrap_line :: "comment_style \<Rightarrow> nat \<Rightarrow> nat \<times> string \<Rightarrow> string" where
  "wrap_line style n il =
     (case il of (index, line) \<Rightarrow>
        (if index = 0 \<and> index + 1 = n
         then [CHR 0x0A] @ header style @ '' '' @ line @ footer style @ [CHR 0x0A]
         else if index = 0
         then [CHR 0x0A] @ header style @ [CHR 0x0A] @ body style @ '' '' @ line
         else if index + 1 = n
         then body style @ '' '' @ line @ [CHR 0x0A] @ footer style @ [CHR 0x0A]
         else body style @ '' '' @ line))"

definition commentWrap :: "(string \<Rightarrow> comment_style option) \<Rightarrow> string \<Rightarrow> string \<Rightarrow> string" where
  "commentWrap styles data ext =
     (case styles ext of
        None \<Rightarrow> []
      | Some style \<Rightarrow>
          (let lines = split_on wrap_break data in
           join [CHR 0x0A] (map (wrap_line style (length lines)) (enumerate 0 lines))))"

section \<open>Directives: \<open>Square.prototype.directive\<close>\<close>

subsection \<open>The pattern \<open>reqparse\<close>\<close>

text \<open>
  \<open>/(\/\*|\/\/)\s*\[square\]\s*\@(require|import|include)\s*\"([^"]+)?\"(.*)/i\<close>.
  Every part of the pattern has one way to match at a given position, so a match at a
  position is found by reading the text from left to right. Letters match without
  regard to case.
\<close>

definition lower :: "char \<Rightarrow> char" where
  "lower c = (if 65 \<le> (of_char c :: nat) \<and> (of_char c :: nat) \<le> 90
              then char_of ((of_char c :: nat) + 32) else c)"

fun strip_ci :: "string \<Rightarrow> string \<Rightarrow> string option" where
  "strip_ci [] s = Some s"
| "strip_ci (p # ps) [] = None"
| "strip_ci (p # ps) (c # cs) = (if lower p = lower c then strip_ci ps cs else None)"

definition line_end :: "char \<Rightarrow> bool" where
  "line_end c = (c = CHR 0x0A \<or> c = CHR 0x0D)"

record req_match =
  matched :: string
  commenttype :: string
  statement :: string
  target :: "string option"
  trailing :: string

definition comment_open :: "string \<Rightarrow> (string \<times> string) option" where
  "comment_open s =
     (if take 2 s = ''/*'' then Some (''/*'', drop 2 s)
      else if take 2 s = ''//'' then Some (''//'', drop 2 s)
      else None)"

definition statement_word :: "string \<Rightarrow> (string \<times> string) option" where
  "statement_word s =
     (case strip_ci ''require'' s of
        Some r \<Rightarrow> Some (take 7 s, r)
      | None \<Rightarrow>
          (case strip_ci ''import'' s of
             Some r \<Rightarrow> Some (take 6 s, r)
           | None \<Rightarrow>
               (case strip_ci ''include'' s of
                  Some r \<Rightarrow> Some (take 7 s, r)
                | None \<Rightarrow> None)))"

text \<open>A match that starts at the first code unit, and the text after the match.\<close>

definition reqparse_at :: "string \<Rightarrow> (req_match \<times> string) option" where
  "reqparse_at s =
     (case comment_open s of
        None \<Rightarrow> None
      | Some (ct, s1) \<Rightarrow>
     (case strip_ci ''[square]'' (dropWhile is_space s1) of
        None \<Rightarrow> None
      | Some s2 \<Rightarrow>
     (case strip_ci ''@'' (dropWhile is_space s2) of
        None \<Rightarrow> None
      | Some s3 \<Rightarrow>
     (case statement_word s3 of
        None \<Rightarrow> None
      | Some (stmt, s4) \<Rightarrow>
     (case strip_ci [CHR 0x22] (dropWhile is_space s4) of
        None \<Rightarrow> None
      | Some s5 \<Rightarrow>
     (case strip_ci [CHR 0x22] (dropWhile (\<lambda>c. c \<noteq> CHR 0x22) s5) of
        None \<Rightarrow> None
      | Some s6 \<Rightarrow>
          (let f = takeWhile (\<lambda>c. c \<noteq> CHR 0x22) s5;
               rest = dropWhile (\<lambda>c. \<not> line_end c) s6
           in Some (\<lparr>matched = take (length s - length rest) s,
                      commenttype = ct,
                      statement = stmt,
                      target = (if f = [] then None else Some f),
                      trailing = takeWhile (\<lambda>c. \<not> line_end c) s6\<rparr>,
                    rest))))))))"

text \<open>
  The leftmost match in a line: the text before it, the match and the text after it.
\<close>

fun reqparse_exec :: "string \<Rightarrow> (string \<times> req_match \<times> string) option" where
  "reqparse_exec [] = None"
| "reqparse_exec (c # cs) =
     (case reqparse_at (c # cs) of
        Some (m, rest) \<Rightarrow> Some ([], m, rest)
      | None \<Rightarrow>
          (case reqparse_exec cs of
             None \<Rightarrow> None
           | Some (pre, m, rest) \<Rightarrow> Some (c # pre, m, rest)))"

subsection \<open>The host and the state of a resolution\<close>

text \<open>
  The files on disk with their contents (every path that exists is a file that can be
  read), \<open>path.resolve\<close>, \<open>path.dirname\<close> and \<open>path.extname\<close>, the comment styles,
  and the directory of the manifest (\<open>this.package.path\<close>).
\<close>

record fhost =
  disk :: "(string \<times> string) list"
  path_resolve :: "string \<Rightarrow> string \<Rightarrow> string"
  path_dirname :: "string \<Rightarrow> string"
  path_extname :: "string \<Rightarrow> string"
  styles :: "string \<Rightarrow> comment_style option"
  package_path :: string

definition readFile :: "fhost \<Rightarrow> string \<Rightarrow> string option" where
  "readFile h p = map_of (disk h) p"

text \<open>The array \<open>seen\<close> and the errors emitted so far.\<close>

record dstate =
  seen :: "string list"
  errors :: "sq_error list"

text \<open>
  The result of a resolution: the process ended or an exception left the call
  (\<open>Inl\<close>), or a text and the state (\<open>Inr\<close>). \<open>None\<close> is a recursion deeper than the
  bound it was given.
\<close>

type_synonym dresult = "(abort + string \<times> dstate) option"

text \<open>
  \<open>critical\<close> returns \<open>false\<close>, which the replacement turns into the text \<open>false\<close>.
\<close>

definition critical_false :: "engine \<Rightarrow> sq_error \<Rightarrow> dstate \<Rightarrow> dresult" where
  "critical_false eng err st =
     (case critical eng err (errors st) of
        Inl a \<Rightarrow> Some (Inl a)
      | Inr em \<Rightarrow> Some (Inr (''false'', st\<lparr>errors := em\<rparr>)))"

text \<open>
  The replacement function \<open>insert\<close>; \<open>rec\<close> is the recursive call of \<open>directive\<close>.
  A directive with an empty file name, \<open>""\<close>, leaves the group undefined, and
  \<open>path.resolve\<close> raises a \<open>TypeError\<close> on it.
\<close>

definition insert_file ::
  "(string \<Rightarrow> string \<Rightarrow> string \<Rightarrow> dstate \<Rightarrow> dresult)
   \<Rightarrow> engine \<Rightarrow> fhost \<Rightarrow> string \<Rightarrow> string \<Rightarrow> req_match \<Rightarrow> dstate \<Rightarrow> dresult" where
  "insert_file rec eng h ext reference m st =
     (case target m of
        None \<Rightarrow> Some (Inl (UncaughtJs TypeError))
      | Some f \<Rightarrow>
          (let loc = path_resolve h reference f in
           case readFile h loc of
             None \<Rightarrow> critical_false eng (DirectiveMissing (statement m) (target m)) st
           | Some text \<Rightarrow>
               (if loc \<in> set (seen st)
                then critical_false eng (DirectiveCycle (matched m)) st
                else rec (commentWrap (styles h) (''[square] directive: '' @ loc) ext @ trim text)
                       ext (path_dirname h loc) (st\<lparr>seen := seen st @ [loc]\<rparr>))))"

text \<open>
  \<open>prev(index, lines)\<close>: the nearest line before \<open>index\<close> that, trimmed, is not empty
  and does not start a comment; the trimmed line and its index.
\<close>

definition comment_start :: "string \<Rightarrow> bool" where
  "comment_start line = (take 2 line = ''//'' \<or> take 2 line = ''/*'')"

fun prev :: "nat \<Rightarrow> string list \<Rightarrow> (string \<times> nat) option" where
  "prev 0 lines = None"
| "prev (Suc i) lines =
     (let line = trim (lines ! i) in
      if line \<noteq> [] \<and> \<not> comment_start line then Some (line, i) else prev i lines)"

text \<open>
  The repair of the line before an include: for the extension \<open>js\<close>, a line that does not
  end with a semicolon, before content that does not start with one, is replaced by the
  trimmed line and a semicolon.
\<close>

definition repair :: "string \<Rightarrow> string \<Rightarrow> string list \<Rightarrow> string list" where
  "repair ext inserted assemble =
     (case prev (length assemble) assemble of
        None \<Rightarrow> assemble
      | Some (line, i) \<Rightarrow>
          (if ext = ''js''
              \<and> line \<noteq> []
              \<and> charAt line (int (length line) - 1) \<noteq> '';''
              \<and> inserted \<noteq> []
              \<and> charAt inserted 0 \<noteq> '';''
           then assemble[i := line @ '';'']
           else assemble))"

text \<open>
  The callback \<open>scan\<close> over the lines, with the array \<open>assemble\<close>. When a line is
  scanned \<open>assemble\<close> holds one entry for every line before it, so the index of the
  line is the length of \<open>assemble\<close>.
\<close>

fun scan ::
  "(req_match \<Rightarrow> dstate \<Rightarrow> dresult) \<Rightarrow> string \<Rightarrow> string list \<Rightarrow> string list \<Rightarrow> dstate
   \<Rightarrow> (abort + string list \<times> dstate) option" where
  "scan ins ext [] assemble st = Some (Inr (assemble, st))"
| "scan ins ext (line # lines) assemble st =
     (case reqparse_exec line of
        None \<Rightarrow> scan ins ext lines (assemble @ [line]) st
      | Some (pre, m, rest) \<Rightarrow>
          (case ins m st of
             None \<Rightarrow> None
           | Some (Inl a) \<Rightarrow> Some (Inl a)
           | Some (Inr (text, st')) \<Rightarrow>
               scan ins ext lines
                 (repair ext (pre @ text @ rest) assemble @ [pre @ text @ rest]) st'))"

text \<open>\<open>reference = reference || this.package.path\<close>.\<close>

definition reference_or :: "fhost \<Rightarrow> string \<Rightarrow> string" where
  "reference_or h reference = (if reference = [] then package_path h else reference)"

text \<open>
  \<open>directive(data, extension, reference, seen)\<close>, with a bound on the depth of the
  recursion as its first argument.
\<close>

primrec directive ::
  "nat \<Rightarrow> engine \<Rightarrow> fhost \<Rightarrow> string \<Rightarrow> string \<Rightarrow> string \<Rightarrow> dstate \<Rightarrow> dresult" where
  "directive 0 eng h data ext reference st = None"
| "directive (Suc n) eng h data ext reference st =
     (case scan (insert_file (directive n eng h) eng h ext (reference_or h reference))
             ext (split_on line_end data) [] st of
        None \<Rightarrow> None
      | Some (Inl a) \<Rightarrow> Some (Inl a)
      | Some (Inr (assemble, st')) \<Rightarrow> Some (Inr (trim (join [CHR 0x0A] assemble), st')))"

text \<open>
  A resolution from the outside. Every level of the recursion adds a file of the disk to
  \<open>seen\<close>, so the depth never exceeds the number of files by more than one; a deeper
  recursion would end in the \<open>RangeError\<close> of an exhausted call stack.
\<close>

definition resolve_directives ::
  "engine \<Rightarrow> fhost \<Rightarrow> string \<Rightarrow> string \<Rightarrow> string \<Rightarrow> dstate \<Rightarrow> abort + string \<times> dstate" where
  "resolve_directives eng h data ext reference st =
     (case directive (Suc (length (disk h))) eng h data ext reference st of
        None \<Rightarrow> Inl (UncaughtJs RangeError)
      | Some r \<Rightarrow> r)"

section \<open>Concatenation: \<open>semicolon\<close>, \<open>preprocess\<close> and \<open>reduce\<close>\<close>

text \<open>
  \<open>semicolon(content)\<close>: the code unit at index \<open>content.length - 1\<close> of the trimmed
  content decides; a semicolon is appended when it is a closing parenthesis or a closing
  brace.
\<close>

definition semicolon :: "string \<Rightarrow> string" where
  "semicolon s =
     (if s = [] then []
      else (let char = charAt (trim s) (int (length s) - 1) in
            if s \<noteq> [] \<and> char \<noteq> [] \<and> char \<noteq> '';''
               \<and> (char = '')'' \<or> char = ''}'')
            then s @ '';'' else s))"

text \<open>
  The detail object of a bundle; \<open>None\<close> is the \<open>NaN\<close> or \<open>undefined\<close> that an extension
  without a count leads to. A compiler takes the content and the details and calls back
  with an error or with the compiled content.
\<close>

record details =
  d_index :: "int option"
  d_count :: "int option"
  d_platform :: string

type_synonym compiler = "string \<Rightarrow> details \<Rightarrow> string + string"

text \<open>A bundle of the tree as \<open>preprocess\<close> and \<open>reduce\<close> read it.\<close>

record tree_bundle =
  m_extension :: string
  m_output :: string
  m_location :: string
  m_directory :: string
  m_content :: string
  m_compiler :: "compiler option"
  m_dependencies :: "string list"

text \<open>
  The dependencies, each below a comment that names it, joined by line feeds.
  \<open>fs.readFileSync\<close> throws for a file that is not there.
\<close>

fun read_dependencies :: "fhost \<Rightarrow> string \<Rightarrow> string list \<Rightarrow> abort + string list" where
  "read_dependencies h ext [] = Inr []"
| "read_dependencies h ext (k # ks) =
     (case readFile h k of
        None \<Rightarrow> Inl (UncaughtJs (ENOENT k))
      | Some tx \<Rightarrow>
          (case read_dependencies h ext ks of
             Inl a \<Rightarrow> Inl a
           | Inr rest \<Rightarrow>
               Inr ((commentWrap (styles h) (''[square] dependency: '' @ k) ext @ tx) # rest)))"

text \<open>
  \<open>preprocess(bundle, details, fn)\<close>: what \<open>fn\<close> is called with, an error of the compiler
  or the content, and the errors emitted so far.
\<close>

definition preprocess ::
  "engine \<Rightarrow> fhost \<Rightarrow> tree_bundle \<Rightarrow> details \<Rightarrow> sq_error list
   \<Rightarrow> abort + (string + string) \<times> sq_error list" where
  "preprocess eng h b det errs =
     (case read_dependencies h (m_extension b) (m_dependencies b) of
        Inl a \<Rightarrow> Inl a
      | Inr deps \<Rightarrow>
          (case resolve_directives eng h
                  (join [CHR 0x0A] deps
                   @ commentWrap (styles h) (''[square] bundle: '' @ m_location b) (m_extension b)
                   @ m_content b)
                  (m_extension b) (m_directory b) \<lparr>seen = [], errors = errs\<rparr> of
             Inl a \<Rightarrow> Inl a
           | Inr (resolved, st) \<Rightarrow>
               (case m_compiler b of
                  None \<Rightarrow> Inr (Inr resolved, errors st)
                | Some compile \<Rightarrow>
                    (case compile resolved det of
                       Inl err \<Rightarrow> Inr (Inl err, errors st)
                     | Inr compiled \<Rightarrow>
                         Inr (Inr (compiled
                                @ commentWrap (styles h)
                                    (''[square] the code above is compiled from ''
                                       @ m_extension b @ '' to '' @ m_output b
                                     @ [CHR 0x0A] @ ''[square] see '' @ m_location b)
                                    (m_output b)),
                              errors st)))))"

text \<open>
  The counters of \<open>reduce\<close>: for every file its extension, \<open>path.extname(file).slice(1)\<close>,
  is counted.
\<close>

fun counter :: "fhost \<Rightarrow> string list \<Rightarrow> (string \<rightharpoonup> int) \<Rightarrow> (string \<rightharpoonup> int)" where
  "counter h [] memo = memo"
| "counter h (f # fs) memo =
     counter h fs
       (let e = drop 1 (path_extname h f) in
        memo(e \<mapsto> (case memo e of None \<Rightarrow> 1 | Some n \<Rightarrow> n + 1)))"

record reduction =
  memo :: "string \<rightharpoonup> string"
  count :: "string \<rightharpoonup> int"
  reported :: "sq_error list"

text \<open>
  The iterator of \<open>async.reduce\<close> over the tree. The first error of a compiler ends the
  reduction; the callback then receives the error and the memo.
\<close>

fun reduce_tree ::
  "engine \<Rightarrow> fhost \<Rightarrow> string \<Rightarrow> string list \<Rightarrow> (string \<rightharpoonup> int) \<Rightarrow> tree_bundle list
   \<Rightarrow> reduction \<Rightarrow> abort + string option \<times> reduction" where
  "reduce_tree eng h plat exts totals [] r = Inr (None, r)"
| "reduce_tree eng h plat exts totals (b # bs) r =
     (let total = totals (m_extension b);
          det = \<lparr>d_index = (case (total, count r (m_extension b)) of
                               (Some t, Some c) \<Rightarrow> Some (t - c)
                             | _ \<Rightarrow> None),
                 d_count = total,
                 d_platform = plat\<rparr>;
          r1 = r\<lparr>count := (case count r (m_extension b) of
                              None \<Rightarrow> count r
                            | Some c \<Rightarrow> (count r)(m_extension b \<mapsto> c - 1))\<rparr>
      in if m_output b \<notin> set exts then reduce_tree eng h plat exts totals bs r1
         else
           (let r2 = r1\<lparr>memo := (case memo r1 (m_output b) of
                                    None \<Rightarrow> (memo r1)(m_output b \<mapsto> [])
                                  | Some s \<Rightarrow> memo r1)\<rparr>
            in case preprocess eng h b det (reported r2) of
                 Inl a \<Rightarrow> Inl a
               | Inr (Inl err, errs) \<Rightarrow> Inr (Some err, r2\<lparr>reported := errs\<rparr>)
               | Inr (Inr cont, errs) \<Rightarrow>
                   (let sofar = (case memo r2 (m_output b) of None \<Rightarrow> [] | Some s \<Rightarrow> s);
                        joined = (if m_output b = ''js'' then semicolon sofar else sofar)
                    in reduce_tree eng h plat exts totals bs
                         (r2\<lparr>memo := (memo r2)(m_output b \<mapsto> trim (joined @ [CHR 0x0A] @ cont)),
                             reported := errs\<rparr>))))"

text \<open>
  \<open>reduce(platform, extensions, fn)\<close> over the files and the tree of the package: the
  error and the map from output extension to document that \<open>fn\<close> receives.
\<close>

definition reduce ::
  "engine \<Rightarrow> fhost \<Rightarrow> string list \<Rightarrow> tree_bundle list \<Rightarrow> string \<Rightarrow> string list
   \<Rightarrow> abort + string option \<times> reduction" where
  "reduce eng h package_files package_tree plat exts =
     (let totals = counter h package_files Map.empty in
      reduce_tree eng h plat exts totals package_tree
        \<lparr>memo = Map.empty, count = totals, reported = []\<rparr>)"

text \<open>What \<open>fn\<close> receives for one output extension: the error and the document.\<close>

definition document_of ::
  "abort + string option \<times> reduction \<Rightarrow> string \<Rightarrow> abort + string option \<times> string option" where
  "document_of res ext =
     (case res of
        Inl a \<Rightarrow> Inl a
      | Inr (err, r) \<Rightarrow> Inr (err, memo r ext))"

section \<open>Tags: \<open>Square.prototype.tag\<close> and the expiring cache\<close>

text \<open>
  Modelled from the spec: the Expiring Cache (\<open>this.cache = new Expires('3 minutes')\<close>;
  the package \<open>expirable\<close> is not among the sources). An entry holds a value and the
  time of its creation and expires a fixed time-to-live after it; the cache as a whole is
  running or stopped. Times are in milliseconds.
\<close>

record expiring_cache =
  running :: bool
  ttl :: nat
  entries :: "string \<rightharpoonup> string \<times> nat"

text \<open>
  Modelled from the spec: the lookup \<open>cache.get(key, true)\<close> of the Expiring Cache at
  the time \<open>now\<close>; an entry that has expired is not found.
\<close>

definition cache_get :: "nat \<Rightarrow> expiring_cache \<Rightarrow> string \<Rightarrow> string option" where
  "cache_get now c k =
     (case entries c k of
        None \<Rightarrow> None
      | Some (v, created) \<Rightarrow> (if now < created + ttl c then Some v else None))"

text \<open>Modelled from the spec: \<open>cache.has(key)\<close> of the Expiring Cache.\<close>

definition cache_has :: "nat \<Rightarrow> expiring_cache \<Rightarrow> string \<Rightarrow> bool" where
  "cache_has now c k = (cache_get now c k \<noteq> None)"

text \<open>
  Modelled from the spec: \<open>cache.set(key, value)\<close> of the Expiring Cache, which creates
  the entry at the time \<open>now\<close> (and returns the value).
\<close>

definition cache_set :: "nat \<Rightarrow> expiring_cache \<Rightarrow> string \<Rightarrow> string \<Rightarrow> expiring_cache" where
  "cache_set now c k v = c\<lparr>entries := (entries c)(k \<mapsto> (v, now))\<rparr>"

text \<open>
  Modelled from the spec: \<open>cache.start()\<close> of the Expiring Cache, called at the
  beginning of a build.
\<close>

definition cache_start :: "expiring_cache \<Rightarrow> expiring_cache" where
  "cache_start c = c\<lparr>running := True\<rparr>"

text \<open>
  Modelled from the spec: \<open>cache.stop()\<close> of the Expiring Cache, called when a build is
  done; what was memoized during the build is gone with it.
\<close>

definition cache_stop :: "expiring_cache \<Rightarrow> expiring_cache" where
  "cache_stop c = c\<lparr>running := False, entries := Map.empty\<rparr>"

text \<open>
  The cache of the instance and the commands handed to \<open>exec\<close> so far, in order.
\<close>

record world =
  cache :: expiring_cache
  exec_log :: "string list"

text \<open>
  What \<open>tag\<close> reads from its surroundings: the output of a shell command, the MD5 digest
  of a text, the date and the year, the user, the host name, the environment of the
  instance and the tags of the configuration.
\<close>

record tag_host =
  shell :: "string \<Rightarrow> string"
  md5 :: "string \<Rightarrow> string"
  date :: string
  year :: int
  user :: string
  hostname :: string
  env :: string
  config_tags :: "(string \<times> jsval) list"

text \<open>\<open>_.extend(object, source)\<close> on lists of properties.\<close>

definition js_extend :: "(string \<times> jsval) list \<Rightarrow> (string \<times> jsval) list \<Rightarrow> (string \<times> jsval) list" where
  "js_extend object source = foldl (\<lambda>acc kv. set_key (fst kv) (snd kv) acc) object source"

definition is_word :: "char \<Rightarrow> bool" where
  "is_word c =
     (let n = (of_char c :: nat) in
      (48 \<le> n \<and> n \<le> 57) \<or> (65 \<le> n \<and> n \<le> 90) \<or> (97 \<le> n \<and> n \<le> 122) \<or> n = 95)"

text \<open>The first match of \<open>/\*\s([\w\.]+)/\<close>: its group.\<close>

fun branch_name :: "string \<Rightarrow> string option" where
  "branch_name [] = None"
| "branch_name (c # cs) =
     (if c = CHR ''*'' \<and> cs \<noteq> [] \<and> is_space (hd cs)
         \<and> takeWhile (\<lambda>x. is_word x \<or> x = CHR ''.'') (tl cs) \<noteq> []
      then Some (takeWhile (\<lambda>x. is_word x \<or> x = CHR ''.'') (tl cs))
      else branch_name cs)"

fun strip_prefix :: "string \<Rightarrow> string \<Rightarrow> string option" where
  "strip_prefix [] s = Some s"
| "strip_prefix (p # ps) [] = None"
| "strip_prefix (p # ps) (c # cs) = (if p = c then strip_prefix ps cs else None)"

text \<open>The first match of \<open>/commit\s(\w+)/\<close>: its group.\<close>

fun commit_id :: "string \<Rightarrow> string option" where
  "commit_id [] = None"
| "commit_id (c # cs) =
     (case strip_prefix ''commit'' (c # cs) of
        None \<Rightarrow> commit_id cs
      | Some r \<Rightarrow>
          (if r \<noteq> [] \<and> is_space (hd r) \<and> takeWhile is_word (tl r) \<noteq> []
           then Some (takeWhile is_word (tl r))
           else commit_id cs))"

text \<open>
  A cached output after \<open>if (x) { x = re.exec(x) || ''; x = x.length ? x[1] : x }\<close>.
\<close>

definition extracted :: "(string \<Rightarrow> string option) \<Rightarrow> string option \<Rightarrow> jsval" where
  "extracted re out =
     (case out of
        None \<Rightarrow> JUndefined
      | Some s \<Rightarrow> (if s = [] then JStr [] else (case re s of None \<Rightarrow> JStr [] | Some g \<Rightarrow> JStr g)))"

text \<open>
  One lookup of \<open>tag\<close>: \<open>cache.get(key, true)\<close>, and when \<open>cache.has(key)\<close> is false the
  command is run and its output cached.
\<close>

definition cached_exec :: "tag_host \<Rightarrow> nat \<Rightarrow> string \<Rightarrow> string \<Rightarrow> world \<Rightarrow> string option \<times> world" where
  "cached_exec th now k command w =
     (if \<not> cache_has now (cache w) k
      then (Some (shell th command),
            w\<lparr>cache := cache_set now (cache w) k (shell th command),
              exec_log := exec_log w @ [command]\<rparr>)
      else (cache_get now (cache w) k, w))"

text \<open>\<open>tag(collection)\<close> at the time \<open>now\<close>: the property bag and the world after it.\<close>

definition tag :: "tag_host \<Rightarrow> nat \<Rightarrow> world \<Rightarrow> (string \<times> jsval) list \<Rightarrow> (string \<times> jsval) list \<times> world" where
  "tag th now w coll =
     (let tags = js_extend coll (config_tags th);
          (branch, w1) = cached_exec th now ''git branch'' ''git branch'' w;
          (sha, w2) = cached_exec th now ''git show'' ''git show -s'' w1
      in (js_extend
            (js_extend [(''type'', JStr ''min'')]
               [(''md5'', JStr (md5 th (case map_of tags ''content'' of
                                         None \<Rightarrow> []
                                       | Some v \<Rightarrow> (if truthy v then to_string v else [])))),
                (''branch'', extracted branch_name branch),
                (''sha'', extracted commit_id sha),
                (''ext'', (case map_of tags ''extension'' of
                            None \<Rightarrow> JStr ''js''
                          | Some v \<Rightarrow> (if truthy v then v else JStr ''js''))),
                (''date'', JStr (date th)),
                (''year'', JNum (year th)),
                (''user'', JStr (user th)),
                (''host'', JStr (hostname th)),
                (''env'', JStr (env th))])
            tags,
          w2))"

text \<open>The calls of \<open>tag\<close> during a build, each with its time and its collection.\<close>

fun tag_calls :: "tag_host \<Rightarrow> world \<Rightarrow> (nat \<times> (string \<times> jsval) list) list \<Rightarrow> world" where
  "tag_calls th w [] = w"
| "tag_calls th w (call # calls) = tag_calls th (snd (tag th (fst call) w (snd call))) calls"

subsection \<open>Notions used in the proofs about directives\<close>

text \<open>
  A call returned, and the array \<open>seen\<close> has lost nothing by it.
\<close>

definition grows :: "dstate \<Rightarrow> (abort + 'a \<times> dstate) option \<Rightarrow> bool" where
  "grows st r =
     (case r of
        None \<Rightarrow> False
      | Some (Inl a) \<Rightarrow> True
      | Some (Inr (t, st')) \<Rightarrow> set (seen st) \<subseteq> set (seen st'))"

text \<open>The files of the disk that a resolution has not yet seen.\<close>

definition unseen :: "fhost \<Rightarrow> dstate \<Rightarrow> string set" where
  "unseen h st = set (map fst (disk h)) - set (seen st)"

text \<open>The directives of a text, line by line.\<close>

definition directives_of :: "string \<Rightarrow> req_match list" where
  "directives_of data =
     List.map_filter (\<lambda>l. map_option (\<lambda>pmr. fst (snd pmr)) (reqparse_exec l))
       (split_on line_end data)"

text \<open>The text that \<open>insert\<close> hands to the recursive call for the file at \<open>loc\<close>.\<close>

definition included :: "fhost \<Rightarrow> string \<Rightarrow> string \<Rightarrow> string \<Rightarrow> string" where
  "included h ext loc tx = commentWrap (styles h) (''[square] directive: '' @ loc) ext @ trim tx"

subsection \<open>Notions used in the proofs about the tree\<close>

text \<open>A list of bundles with the heaviest first.\<close>

abbreviation heavier_first :: "('w::linorder) node list \<Rightarrow> bool" where
  "heavier_first xs \<equiv> sorted_wrt (\<lambda>a b. weight b \<le> weight a) xs"

text \<open>The weights the loop hands out, counting down from the number of bundles left.\<close>

fun loop_weights :: "'w host \<Rightarrow> nat \<Rightarrow> (string \<times> bundle_obj) list \<Rightarrow> 'w list" where
  "loop_weights h n [] = []"
| "loop_weights h n ((loc, b) # rest) = helper_weight h (amount b) n # loop_weights h (n - 1) rest"

text \<open>
  The keys and weights of the bundles in the words of the spec, to be compared with what
  \<open>parse\<close> computes: a bundle has the weight it declares, and, when it declares none, the
  number of bundles remaining, itself included. A declared weight of 0 or 1 cannot be
  told from none, since \<open>parse\<close> hands over \<open>+bundle.weight || 1\<close>.
\<close>

fun spec_weights :: "nat \<Rightarrow> (string \<times> bundle_obj) list \<Rightarrow> (string \<times> int) list" where
  "spec_weights n [] = []"
| "spec_weights n ((loc, b) # rest) =
     (loc, (case b_weight b of
              None \<Rightarrow> int n
            | Some w \<Rightarrow> (if w = 0 \<or> w = 1 then int n else w)))
     # spec_weights (n - 1) rest"

text \<open>The key and the weight of a bundle of the tree.\<close>

definition key_weight :: "'w node \<Rightarrow> string \<times> 'w" where
  "key_weight n = (key n, weight n)"

section \<open>Verification\<close>

subsection \<open>Properties of the loop\<close>














subsection \<open>Templates\<close>

lemma template_found: "template tagged ''{a.b}'' (JObj [(''a'', JObj [(''b'', JStr ''ok'')])]) = Inr ''ok''"
  by code_simp

lemma template_missing: "template tagged ''{missing}'' (JObj []) = Inr []"
  by code_simp

text \<open>
  C6 (what the code does at the failing input): a dotted path whose first segment is
  missing makes \<open>getObjectByKey\<close> read a property of \<open>undefined\<close>, so \<open>template\<close>
  raises a \<open>TypeError\<close> instead of substituting the empty string.
\<close>

theorem template_missing_intermediate_throws:
  "template tagged ''{a.b}'' (JObj []) = Inl TypeError"
  by code_simp

subsection \<open>The constructor\<close>

text \<open>
  C10: whatever the options hold, also under the keys \<open>config\<close>, \<open>middleware\<close>,
  \<open>storages\<close> and \<open>package\<close>, a constructed instance has the static configuration as
  its \<open>config\<close>, an empty middleware list, an empty list of storages and an empty
  package.
\<close>

theorem Square_private_fields:
  assumes "Square static lv options = Inr inst"
  shows "inst ''config'' = Some static
       \<and> inst ''middleware'' = Some (JArr [])
       \<and> inst ''storages'' = Some (JArr [])
       \<and> inst ''package'' = Some (JObj [])"
  using assms by (auto simp: Square_def split: option.splits sum.splits)

lemma Square_pewpew:
  "\<exists>inst. Square (JObj [(''dist'', JStr ''out'')]) lv
     (JObj [(''middleware'', JStr ''pewpew''), (''config'', JStr ''pewpew''),
            (''package'', JStr ''pewpew''), (''storages'', JStr ''pewpew'')]) = Inr inst"
  by (simp add: Square_def)

theorem Square_private_fields_witness:
  "\<exists>inst. Square (JObj [(''dist'', JStr ''out'')]) \<lparr>lv_error = 0, lv_log = 5, lv_debug = 7\<rparr>
       (JObj [(''middleware'', JStr ''pewpew''), (''config'', JStr ''pewpew''),
              (''package'', JStr ''pewpew''), (''storages'', JStr ''pewpew'')]) = Inr inst
     \<and> inst ''config'' = Some (JObj [(''dist'', JStr ''out'')])
     \<and> inst ''middleware'' = Some (JArr [])
     \<and> inst ''storages'' = Some (JArr [])
     \<and> inst ''package'' = Some (JObj [])"
proof -
  obtain inst where
    i: "Square (JObj [(''dist'', JStr ''out'')]) \<lparr>lv_error = 0, lv_log = 5, lv_debug = 7\<rparr>
       (JObj [(''middleware'', JStr ''pewpew''), (''config'', JStr ''pewpew''),
              (''package'', JStr ''pewpew''), (''storages'', JStr ''pewpew'')]) = Inr inst"
    using Square_pewpew by blast
  show ?thesis
    using i Square_private_fields [OF i] by blast
qed

subsection \<open>Manifests\<close>

lemma array_reduce_undefined:
  "array_reduce (bundle_callback decl) None (x # xs) i = Inl TypeError"
  by (simp add: bundle_callback_def)

lemma bundles_of_array:
  "bundles_of (BundleArray (f # fs)) = (if fs = [] then Inr None else Inl TypeError)"
  by (cases fs) (simp_all add: bundles_of_def bundle_callback_def)

text \<open>
  C5 (what the code does at the failing input): for a manifest whose \<open>bundle\<close> is a
  non-empty array of paths no bundle map is built and \<open>parse\<close> ends in a \<open>TypeError\<close>.
\<close>

theorem parse_bundle_array_throws:
  assumes "fs \<noteq> []"
  shows "parse eng h (BundleArray fs) = Inl (UncaughtJs TypeError)"
proof -
  obtain f fs' where "fs = f # fs'"
    using assms by (cases fs) auto
  then show ?thesis
    by (simp add: parse_def bundles_of_array)
qed

theorem parse_bundle_array_throws_witness:
  "[''a.js''] \<noteq> []
   \<and> parse \<lparr>cli = False, listening = True\<rparr>
        \<lparr>on_disk = (\<lambda>p. True), base = (\<lambda>p. p), resolve = (\<lambda>p. p),
         helper_weight = (\<lambda>a n. a * 1000 + int n)\<rparr>
        (BundleArray [''a.js'']) = Inl (UncaughtJs TypeError)"
  using parse_bundle_array_throws [of "[''a.js'']" "\<lparr>cli = False, listening = True\<rparr>"
      "\<lparr>on_disk = (\<lambda>p. True), base = (\<lambda>p. p), resolve = (\<lambda>p. p),
         helper_weight = (\<lambda>a n. a * 1000 + int n)\<rparr>"]
  by simp


subsection \<open>The order of the tree\<close>

lemma set_insert_desc: "set (insert_desc x xs) = insert x (set xs)"
  by (induction xs) auto

lemma insert_desc_sorted: "heavier_first xs \<Longrightarrow> heavier_first (insert_desc x xs)"
  by (induction xs) (auto simp: set_insert_desc)

lemma sort_desc_sorted: "heavier_first (sort_desc xs)"
  by (induction xs) (simp_all add: insert_desc_sorted)

lemma insert_desc_front:
  assumes "\<forall>y \<in> set xs. weight y \<le> weight x"
  shows "insert_desc x xs = x # xs"
  using assms by (cases xs) auto

lemma sort_desc_id: "heavier_first xs \<Longrightarrow> sort_desc xs = xs"
  by (induction xs) (simp_all add: insert_desc_front)

lemma map_dependencies_frame:
  assumes "map_dependencies eng h loc ds st = Inr (rs, st')"
  shows "tree st' = tree st \<and> remaining st' = remaining st"
  using assms
proof (induction ds arbitrary: st rs st')
  case Nil
  then show ?case by simp
next
  case (Cons d ds)
  show ?case
  proof (cases "on_disk h (resolve h (base h d))")
    case True
    then obtain rs' where
      "map_dependencies eng h loc ds
         (st\<lparr>all_dependencies := all_dependencies st @ [resolve h (base h d)]\<rparr>) = Inr (rs', st')"
      using Cons.prems by (auto simp: Let_def split: sum.splits prod.splits)
    then show ?thesis using Cons.IH by fastforce
  next
    case False
    then obtain em rs' where
      "map_dependencies eng h loc ds (st\<lparr>emitted := em\<rparr>) = Inr (rs', st')"
      using Cons.prems by (auto simp: Let_def split: sum.splits prod.splits)
    then show ?thesis using Cons.IH by fastforce
  qed
qed

lemma bundle_loop_order:
  assumes "bundle_loop eng h kvs st = Inr st'"
  shows "\<exists>k \<le> length kvs.
           map key (tree st') = map key (tree st) @ map fst (take k kvs)
         \<and> map weight (tree st') = map weight (tree st) @ take k (loop_weights h (remaining st) kvs)
         \<and> ((\<forall>(loc, b) \<in> set kvs. on_disk h (base h loc)) \<longrightarrow> k = length kvs)"
  using assms
proof (induction kvs arbitrary: st)
  case Nil
  then show ?case by simp
next
  case (Cons kv kvs)
  obtain loc b where kv: "kv = (loc, b)" by (cases kv)
  show ?case
  proof (cases "on_disk h (base h loc)")
    case False
    then have "tree st' = tree st"
      using Cons.prems kv by (auto split: sum.splits)
    then have "map key (tree st') = map key (tree st) @ map fst (take 0 (kv # kvs))
         \<and> map weight (tree st') = map weight (tree st) @ take 0 (loop_weights h (remaining st) (kv # kvs))
         \<and> ((\<forall>(loc, b) \<in> set (kv # kvs). on_disk h (base h loc)) \<longrightarrow> 0 = length (kv # kvs))"
      using False kv by simp
    then show ?thesis by blast
  next
    case True
    define w where "w = helper_weight h (amount b) (remaining st)"
    define st1 where "st1 = st\<lparr>files := files st @ [base h loc], remaining := remaining st - 1\<rparr>"
    have "\<exists>st2. tree st2 = tree st @ [\<lparr>key = loc, location = base h loc, weight = w,
                      dependencies = (case b_dependencies b of None \<Rightarrow> None | Some ds \<Rightarrow> dependencies (last (tree st2)))\<rparr>]
             \<and> remaining st2 = remaining st - 1
             \<and> bundle_loop eng h kvs st2 = Inr st'"
    proof (cases "b_dependencies b")
      case None
      then have "bundle_loop eng h kvs
                   (st1\<lparr>tree := tree st1 @
                      [\<lparr>key = loc, location = base h loc, weight = w, dependencies = None\<rparr>]\<rparr>) = Inr st'"
        using Cons.prems kv True by (simp add: Let_def w_def st1_def)
      then show ?thesis
        using None by (intro exI [of _ "st1\<lparr>tree := tree st1 @
                      [\<lparr>key = loc, location = base h loc, weight = w, dependencies = None\<rparr>]\<rparr>"])
          (simp add: st1_def)
    next
      case (Some ds)
      then obtain rs stm where
        m: "map_dependencies eng h loc ds st1 = Inr (rs, stm)" and
        l: "bundle_loop eng h kvs
              (stm\<lparr>tree := tree stm @
                 [\<lparr>key = loc, location = base h loc, weight = w, dependencies = Some rs\<rparr>]\<rparr>) = Inr st'"
        using Cons.prems kv True
        by (auto simp: Let_def w_def st1_def split: sum.splits prod.splits)
      have "tree stm = tree st \<and> remaining stm = remaining st - 1"
        using map_dependencies_frame [OF m] by (simp add: st1_def)
      then show ?thesis
        using Some l by (intro exI [of _ "stm\<lparr>tree := tree stm @
                 [\<lparr>key = loc, location = base h loc, weight = w, dependencies = Some rs\<rparr>]\<rparr>"])
          simp
    qed
    then obtain st2 d where
      t2: "tree st2 = tree st @ [\<lparr>key = loc, location = base h loc, weight = w, dependencies = d\<rparr>]" and
      r2: "remaining st2 = remaining st - 1" and
      l2: "bundle_loop eng h kvs st2 = Inr st'"
      by blast
    obtain k where k: "k \<le> length kvs"
      "map key (tree st') = map key (tree st2) @ map fst (take k kvs)"
      "map weight (tree st') = map weight (tree st2) @ take k (loop_weights h (remaining st2) kvs)"
      "(\<forall>(loc, b) \<in> set kvs. on_disk h (base h loc)) \<longrightarrow> k = length kvs"
      using Cons.IH [OF l2] by blast
    have "Suc k \<le> length (kv # kvs)
         \<and> map key (tree st') = map key (tree st) @ map fst (take (Suc k) (kv # kvs))
         \<and> map weight (tree st') =
             map weight (tree st) @ take (Suc k) (loop_weights h (remaining st) (kv # kvs))
         \<and> ((\<forall>(loc, b) \<in> set (kv # kvs). on_disk h (base h loc)) \<longrightarrow> Suc k = length (kv # kvs))"
      using k t2 r2 kv by (simp add: w_def)
    then show ?thesis by blast
  qed
qed

lemma length_loop_weights: "length (loop_weights h n kvs) = length kvs"
  by (induction kvs arbitrary: n) auto

lemma map_pair_zip: "map (\<lambda>n. (f n, g n)) xs = zip (map f xs) (map g xs)"
  by (induction xs) simp_all

lemma mset_insert_desc: "mset (insert_desc x xs) = add_mset x (mset xs)"
  by (induction xs) auto

lemma mset_sort_desc: "mset (sort_desc xs) = mset xs"
  by (induction xs) (simp_all add: mset_insert_desc)

lemma loop_weights_spec:
  assumes "helper_weight h = helpers_weight"
  shows "zip (map fst kvs) (loop_weights h n kvs) = spec_weights n kvs"
proof (induction kvs arbitrary: n)
  case Nil
  show ?case by simp
next
  case (Cons kv kvs)
  obtain loc b where kv: "kv = (loc, b)" by (cases kv)
  have "helper_weight h (amount b) n =
          (case b_weight b of
             None \<Rightarrow> int n
           | Some w \<Rightarrow> (if w = 0 \<or> w = 1 then int n else w))"
    using assms by (simp add: amount_def helpers_weight_def split: option.splits)
  then show ?case
    using Cons.IH kv by simp
qed

lemma spec_weights_keys: "map fst (spec_weights n kvs) = map fst kvs"
  by (induction n kvs rule: spec_weights.induct) simp_all

lemma length_spec_weights: "length (spec_weights n kvs) = length kvs"
  by (induction n kvs rule: spec_weights.induct) simp_all

lemma spec_weights_default:
  assumes "\<forall>(loc, b) \<in> set kvs. b_weight b = None"
  shows "sorted_wrt (\<lambda>a b. b \<le> a) (map snd (spec_weights n kvs))
       \<and> (\<forall>w \<in> set (map snd (spec_weights n kvs)). w \<le> int n)"
  using assms
proof (induction kvs arbitrary: n)
  case Nil
  show ?case by simp
next
  case (Cons kv kvs)
  obtain loc b where kv: "kv = (loc, b)" by (cases kv)
  have b: "b_weight b = None"
    using Cons.prems kv by simp
  have nw: "\<forall>(loc, b) \<in> set kvs. b_weight b = None"
    using Cons.prems by auto
  have ih: "sorted_wrt (\<lambda>a b. b \<le> a) (map snd (spec_weights (n - 1) kvs))"
    "\<forall>w \<in> set (map snd (spec_weights (n - 1) kvs)). w \<le> int (n - 1)"
    using Cons.IH [OF nw] by auto
  have "\<forall>w \<in> set (map snd (spec_weights (n - 1) kvs)). w \<le> int n"
    using ih(2) by fastforce
  then show ?case
    using ih(1) kv b by simp
qed

lemma set_insert_index: "set (insert_index x xs) = insert x (set xs)"
  by (induction xs) auto

lemma set_sort_index: "set (sort_index xs) = set xs"
  by (induction xs) (simp_all add: set_insert_index)

lemma length_insert_index: "length (insert_index x xs) = Suc (length xs)"
  by (induction xs) auto

lemma length_sort_index: "length (sort_index xs) = length xs"
  by (induction xs) (simp_all add: length_insert_index)

lemma set_property_order: "set (property_order kvs) = set kvs"
  by (auto simp: property_order_def set_sort_index)

lemma length_property_order: "length (property_order kvs) = length kvs"
proof -
  have "length (filter (\<lambda>kv. index_key (fst kv) \<noteq> None) kvs)
        + length (filter (\<lambda>kv. \<not> index_key (fst kv) \<noteq> None) kvs) = length kvs"
    by (rule sum_length_filter_compl)
  then show ?thesis
    by (simp add: property_order_def length_sort_index)
qed

lemma property_order_plain:
  assumes "\<forall>kv \<in> set kvs. index_key (fst kv) = None"
  shows "property_order kvs = kvs"
proof -
  have "filter (\<lambda>kv. index_key (fst kv) \<noteq> None) kvs = []"
    using assms by (simp add: filter_empty_conv)
  moreover have "filter (\<lambda>kv. index_key (fst kv) = None) kvs = kvs"
    using assms by (simp add: filter_id_conv)
  ultimately show ?thesis
    by (simp add: property_order_def)
qed

text \<open>
  C7 (amended): the tree of a parsed manifest is sorted by weight, heaviest first, and it
  holds the bundles that \<open>parse\<close> met before a missing bundle file ended the loop, all
  of them when every bundle file exists, each once and with the weight of the spec: the
  weight the bundle declares, or the number of bundles remaining when it declares none
  (or 0, or 1). \<open>parse\<close> meets the bundles in the property order of the bundle object.
  When no bundle declares a weight and every bundle file exists, the order of the tree is
  that property order; it is the order in which the manifest declares the bundles when,
  besides, no key is an array index. (\<open>helper.weight\<close> is the function modelled from the
  spec.)
\<close>

theorem parse_tree_sorted_property_order:
  fixes h :: "int host"
  assumes "parse eng (h\<lparr>helper_weight := helpers_weight\<rparr>) (BundleMap (property_order declared))
           = Inr r"
  shows "sorted_wrt (\<lambda>a b. weight b \<le> weight a) (tree r)
       \<and> (\<exists>k \<le> length declared.
             mset (map key_weight (tree r)) =
               mset (take k (spec_weights (length declared) (property_order declared)))
           \<and> ((\<forall>(loc, b) \<in> set declared. on_disk h (base h loc)) \<longrightarrow> k = length declared))
       \<and> ((\<forall>(loc, b) \<in> set declared. b_weight b = None \<and> on_disk h (base h loc))
            \<longrightarrow> map key (tree r) = map fst (property_order declared))
       \<and> ((\<forall>(loc, b) \<in> set declared.
               b_weight b = None \<and> on_disk h (base h loc) \<and> index_key loc = None)
            \<longrightarrow> map key (tree r) = map fst declared)"
proof -
  define g where "g = h\<lparr>helper_weight := helpers_weight\<rparr>"
  define kvs where "kvs = property_order declared"
  have hw: "helper_weight g = helpers_weight"
    and od: "on_disk g = on_disk h" and ba: "base g = base h"
    by (simp_all add: g_def)
  have len: "length kvs = length declared"
    by (simp add: kvs_def length_property_order)
  have elems: "set kvs = set declared"
    by (simp add: kvs_def set_property_order)
  obtain st where
    loop: "bundle_loop eng g kvs
             \<lparr>tree = [], files = [], all_dependencies = [], remaining = length kvs, emitted = []\<rparr>
           = Inr st" and
    r: "r = st\<lparr>tree := sort_desc (tree st)\<rparr>"
    using assms
    by (auto simp: parse_def bundles_of_def g_def kvs_def split: sum.splits option.splits)
  obtain k where k: "k \<le> length kvs"
    and keys: "map key (tree st) = map fst (take k kvs)"
    and weights: "map weight (tree st) = take k (loop_weights g (length kvs) kvs)"
    and full: "(\<forall>(loc, b) \<in> set kvs. on_disk g (base g loc)) \<longrightarrow> k = length kvs"
    using bundle_loop_order [OF loop] by auto
  have pushed: "map key_weight (tree st) = take k (spec_weights (length kvs) kvs)"
  proof -
    have "map key_weight (tree st) = zip (map key (tree st)) (map weight (tree st))"
      using map_pair_zip [of key weight "tree st"] by (simp add: key_weight_def [abs_def])
    also have "\<dots> = take k (zip (map fst kvs) (loop_weights g (length kvs) kvs))"
      by (simp add: keys weights take_zip take_map)
    also have "\<dots> = take k (spec_weights (length kvs) kvs)"
      by (simp add: loop_weights_spec [OF hw])
    finally show ?thesis .
  qed
  have sorted: "sorted_wrt (\<lambda>a b. weight b \<le> weight a) (tree r)"
    using r by (simp add: sort_desc_sorted)
  have "mset (map key_weight (tree r)) = mset (map key_weight (tree st))"
    using r by (simp add: mset_sort_desc)
  then have perm: "mset (map key_weight (tree r)) =
                   mset (take k (spec_weights (length declared) (property_order declared)))"
    using pushed len by (simp add: kvs_def)
  have all: "k = length declared" if "\<forall>(loc, b) \<in> set declared. on_disk h (base h loc)"
    using that full elems len od ba by simp
  have holds: "\<exists>k \<le> length declared.
             mset (map key_weight (tree r)) =
               mset (take k (spec_weights (length declared) (property_order declared)))
           \<and> ((\<forall>(loc, b) \<in> set declared. on_disk h (base h loc)) \<longrightarrow> k = length declared)"
    using k len perm all by (intro exI [of _ k]) simp
  have order: "map key (tree r) = map fst (property_order declared)"
    if none: "\<forall>(loc, b) \<in> set declared. b_weight b = None \<and> on_disk h (base h loc)"
  proof -
    have "\<forall>(loc, b) \<in> set declared. on_disk h (base h loc)"
      using none by auto
    then have kl: "k = length kvs"
      using all len by simp
    have nw: "\<forall>(loc, b) \<in> set kvs. b_weight b = None"
      using none elems by auto
    have "map weight (tree st) = map snd (map key_weight (tree st))"
      by (simp add: key_weight_def comp_def)
    also have "\<dots> = map snd (spec_weights (length kvs) kvs)"
      using pushed kl by (simp add: length_spec_weights)
    finally have "sorted_wrt (\<lambda>a b. b \<le> a) (map weight (tree st))"
      using spec_weights_default [OF nw] by simp
    then have "heavier_first (tree st)"
      by (simp add: sorted_wrt_map)
    then have "sort_desc (tree st) = tree st"
      by (rule sort_desc_id)
    then show ?thesis
      using r keys kl by (simp add: kvs_def)
  qed
  have plain: "map key (tree r) = map fst declared"
    if none: "\<forall>(loc, b) \<in> set declared.
               b_weight b = None \<and> on_disk h (base h loc) \<and> index_key loc = None"
  proof -
    have "\<forall>kv \<in> set declared. index_key (fst kv) = None"
      using none by auto
    then have "property_order declared = declared"
      by (rule property_order_plain)
    moreover have "\<forall>(loc, b) \<in> set declared. b_weight b = None \<and> on_disk h (base h loc)"
      using none by auto
    ultimately show ?thesis
      using order by simp
  qed
  show ?thesis
    using sorted holds order plain by (intro conjI impI)
qed

theorem parse_tree_sorted_property_order_witness:
  "\<exists>r. parse \<lparr>cli = False, listening = True\<rparr>
          (\<lparr>on_disk = (\<lambda>p. True), base = (\<lambda>p. ''/app/'' @ p), resolve = (\<lambda>p. p),
            helper_weight = (\<lambda>a n. 0)\<rparr>\<lparr>helper_weight := helpers_weight\<rparr>)
          (BundleMap (property_order
             [(''a.js'', \<lparr>b_weight = None, b_dependencies = None\<rparr>),
              (''b.js'', \<lparr>b_weight = None, b_dependencies = Some [''v.js'']\<rparr>),
              (''c.js'', \<lparr>b_weight = None, b_dependencies = None\<rparr>)])) = Inr r
      \<and> sorted_wrt (\<lambda>a b. weight b \<le> weight a) (tree r)
      \<and> map key (tree r) = [''a.js'', ''b.js'', ''c.js'']"
proof -
  let ?h = "\<lparr>on_disk = (\<lambda>p. True), base = (\<lambda>p. ''/app/'' @ p), resolve = (\<lambda>p. p),
           helper_weight = (\<lambda>a n. 0)\<rparr> :: int host"
  let ?declared = "[(''a.js'', \<lparr>b_weight = None, b_dependencies = None\<rparr>),
            (''b.js'', \<lparr>b_weight = None, b_dependencies = Some [''v.js'']\<rparr>),
            (''c.js'', \<lparr>b_weight = None, b_dependencies = None\<rparr>)]"
  have plain: "\<forall>kv \<in> set ?declared. index_key (fst kv) = None"
    by (simp add: index_key_def array_index_def is_digit_def)
  have po: "property_order ?declared = ?declared"
    using plain by (rule property_order_plain)
  have "\<exists>r. parse \<lparr>cli = False, listening = True\<rparr> (?h\<lparr>helper_weight := helpers_weight\<rparr>)
              (BundleMap (property_order ?declared)) = Inr r"
    by (simp add: po parse_def bundles_of_def Let_def amount_def)
  then obtain r where
    r: "parse \<lparr>cli = False, listening = True\<rparr> (?h\<lparr>helper_weight := helpers_weight\<rparr>)
          (BundleMap (property_order ?declared)) = Inr r"
    by blast
  have hyp: "\<forall>(loc, b) \<in> set ?declared.
               b_weight b = None \<and> on_disk ?h (base ?h loc) \<and> index_key loc = None"
    using plain by simp
  note t = parse_tree_sorted_property_order [OF r]
  have s: "sorted_wrt (\<lambda>a b. weight b \<le> weight a) (tree r)"
    using t by (rule conjunct1)
  have "map key (tree r) = map fst ?declared"
    using t [THEN conjunct2, THEN conjunct2, THEN conjunct2] hyp by (rule mp)
  then have k: "map key (tree r) = [''a.js'', ''b.js'', ''c.js'']"
    by simp
  show ?thesis
    using r s k by (intro exI [of _ r] conjI)
qed

text \<open>
  C7, the claim as stated: the order of the tree is not always the order in which the
  manifest declares the bundles. A manifest that declares the bundles \<open>10\<close> and \<open>9\<close>, in
  this order and without weights, gives an object that hands out \<open>9\<close> before \<open>10\<close>;
  \<open>parse\<close> gives \<open>9\<close> the weight 2 and \<open>10\<close> the weight 1, and the tree is \<open>9\<close>, \<open>10\<close>.
\<close>

theorem parse_tree_declaration_order_counterexample:
  "map fst (property_order
      [(''10'', \<lparr>b_weight = None, b_dependencies = None\<rparr>),
       (''9'', \<lparr>b_weight = None, b_dependencies = None\<rparr>)]) = [''9'', ''10'']
   \<and> (\<exists>r. parse \<lparr>cli = False, listening = True\<rparr>
          \<lparr>on_disk = (\<lambda>p. True), base = (\<lambda>p. ''/app/'' @ p), resolve = (\<lambda>p. p),
           helper_weight = helpers_weight\<rparr>
          (BundleMap (property_order
             [(''10'', \<lparr>b_weight = None, b_dependencies = None\<rparr>),
              (''9'', \<lparr>b_weight = None, b_dependencies = None\<rparr>)])) = Inr r
        \<and> map key_weight (tree r) = [(''9'', 2), (''10'', 1)])"
proof -
  have po: "property_order
      [(''10'', \<lparr>b_weight = None, b_dependencies = None\<rparr>),
       (''9'', \<lparr>b_weight = None, b_dependencies = None\<rparr>)] =
      [(''9'', \<lparr>b_weight = None, b_dependencies = None\<rparr>),
       (''10'', \<lparr>b_weight = None, b_dependencies = None\<rparr>)]"
    by code_simp
  show ?thesis
    by (simp add: po parse_def bundles_of_def Let_def amount_def helpers_weight_def key_weight_def)
qed

subsection \<open>Directive resolution returns\<close>

lemma grows_critical_false: "grows st (critical_false eng err st)"
  by (simp add: grows_def critical_false_def split: sum.splits)

lemma grows_trans:
  assumes "set (seen st) \<subseteq> set (seen st1)" and "grows st1 r"
  shows "grows st r"
  using assms by (auto simp: grows_def split: option.splits sum.splits)

lemma scan_grows:
  fixes st :: dstate
  assumes "\<And>m (st' :: dstate). set (seen st) \<subseteq> set (seen st') \<Longrightarrow> grows st' (ins m st')"
  shows "grows st (scan ins ext lines assemble st)"
  using assms
proof (induction lines arbitrary: assemble st)
  case Nil
  show ?case by (simp add: grows_def)
next
  case (Cons line lines)
  show ?case
  proof (cases "reqparse_exec line")
    case None
    then show ?thesis
      using Cons.IH [of st "assemble @ [line]"] Cons.prems by simp
  next
    case (Some pmr)
    obtain pre m rest where pmr: "pmr = (pre, m, rest)" by (cases pmr)
    have g: "grows st (ins m st)"
      using Cons.prems [of st m] by simp
    show ?thesis
    proof (cases "ins m st")
      case None
      then show ?thesis using g by (simp add: grows_def)
    next
      case (Some r)
      show ?thesis
      proof (cases r)
        case (Inl a)
        then show ?thesis
          using \<open>reqparse_exec line = Some pmr\<close> pmr Some by (simp add: grows_def)
      next
        case (Inr ts)
        obtain tx st1 where ts: "ts = (tx, st1)" by (cases ts)
        have sub: "set (seen st) \<subseteq> set (seen st1)"
          using g Some Inr ts by (simp add: grows_def)
        have "grows st1 (scan ins ext lines
                 (repair ext (pre @ tx @ rest) assemble @ [pre @ tx @ rest]) st1)"
        proof (rule Cons.IH)
          fix m' and st' :: dstate
          assume "set (seen st1) \<subseteq> set (seen st')"
          then have "set (seen st) \<subseteq> set (seen st')" using sub by blast
          then show "grows st' (ins m' st')" by (rule Cons.prems)
        qed
        then have "grows st (scan ins ext lines
                 (repair ext (pre @ tx @ rest) assemble @ [pre @ tx @ rest]) st1)"
          using sub by (rule grows_trans [rotated])
        then show ?thesis
          using \<open>reqparse_exec line = Some pmr\<close> pmr Some Inr ts by simp
      qed
    qed
  qed
qed

lemma unseen_mono:
  assumes "set (seen st) \<subseteq> set (seen st')"
  shows "card (unseen h st') \<le> card (unseen h st)"
proof -
  have "unseen h st' \<subseteq> unseen h st"
    using assms by (auto simp: unseen_def)
  moreover have "finite (unseen h st)"
    by (simp add: unseen_def)
  ultimately show ?thesis by (rule card_mono [rotated])
qed

lemma unseen_push:
  assumes "readFile h loc = Some text" and "loc \<notin> set (seen st)"
  shows "card (unseen h (st\<lparr>seen := seen st @ [loc]\<rparr>)) < card (unseen h st)"
proof -
  have "loc \<in> set (map fst (disk h))"
    using assms(1) by (force simp: readFile_def dest: map_of_SomeD)
  then have "loc \<in> unseen h st"
    using assms(2) by (simp add: unseen_def)
  moreover have "unseen h (st\<lparr>seen := seen st @ [loc]\<rparr>) = unseen h st - {loc}"
    by (auto simp: unseen_def)
  moreover have "finite (unseen h st)"
    by (simp add: unseen_def)
  ultimately show ?thesis
    by (metis card_Diff1_less)
qed

lemma directive_grows:
  "card (unseen h st) < n \<Longrightarrow> grows st (directive n eng h data ext reference st)"
proof (induction n arbitrary: data ext reference st)
  case 0
  then show ?case by simp
next
  case (Suc n)
  let ?ref = "reference_or h reference"
  have ins: "grows st' (insert_file (directive n eng h) eng h ext ?ref m st')"
    if sub: "set (seen st) \<subseteq> set (seen st')" for m st'
  proof -
    have bound: "card (unseen h st') \<le> n"
      using unseen_mono [OF sub, of h] Suc.prems by simp
    show ?thesis
    proof (cases "target m")
      case None
      then show ?thesis by (simp add: insert_file_def grows_def)
    next
      case (Some f)
      let ?loc = "path_resolve h ?ref f"
      show ?thesis
      proof (cases "readFile h ?loc")
        case None
        then show ?thesis
          using Some by (simp add: insert_file_def grows_critical_false)
      next
        case (Some tx)
        show ?thesis
        proof (cases "?loc \<in> set (seen st')")
          case True
          then show ?thesis
            using \<open>target m = Some f\<close> Some
            by (simp add: insert_file_def grows_critical_false)
        next
          case False
          let ?st = "st'\<lparr>seen := seen st' @ [?loc]\<rparr>"
          have "card (unseen h ?st) < n"
            using unseen_push [OF Some False] bound by simp
          then have "grows ?st (directive n eng h
                      (commentWrap (styles h) (''[square] directive: '' @ ?loc) ext @ trim tx)
                      ext (path_dirname h ?loc) ?st)"
            by (rule Suc.IH)
          moreover have "set (seen st') \<subseteq> set (seen ?st)" by auto
          ultimately have "grows st' (directive n eng h
                      (commentWrap (styles h) (''[square] directive: '' @ ?loc) ext @ trim tx)
                      ext (path_dirname h ?loc) ?st)"
            by (rule grows_trans [rotated])
          then show ?thesis
            using \<open>target m = Some f\<close> Some False by (simp add: insert_file_def Let_def)
        qed
      qed
    qed
  qed
  have "grows st (scan (insert_file (directive n eng h) eng h ext ?ref) ext
                    (split_on line_end data) [] st)"
    using ins by (rule scan_grows)
  then show ?case
    by (auto simp: grows_def split: option.splits sum.splits)
qed

lemma unseen_bound: "card (unseen h st) < Suc (length (disk h))"
proof -
  have "card (unseen h st) \<le> card (set (map fst (disk h)))"
    by (rule card_mono) (auto simp: unseen_def)
  also have "\<dots> \<le> length (map fst (disk h))"
    by (rule card_length)
  finally show ?thesis by simp
qed

lemma directive_returns:
  "\<exists>r. directive (Suc (length (disk h))) eng h data ext reference st = Some r"
proof -
  have "grows st (directive (Suc (length (disk h))) eng h data ext reference st)"
    using unseen_bound by (rule directive_grows)
  then show ?thesis
    by (cases "directive (Suc (length (disk h))) eng h data ext reference st")
      (simp_all add: grows_def)
qed

text \<open>A deeper bound does not change what a resolution returns.\<close>

lemma scan_ins_mono:
  assumes "\<And>m st r. ins m st = Some r \<Longrightarrow> ins' m st = Some r"
    and "scan ins ext lines assemble st = Some r"
  shows "scan ins' ext lines assemble st = Some r"
  using assms(2)
proof (induction lines arbitrary: assemble st)
  case Nil
  then show ?case by simp
next
  case (Cons line lines)
  show ?case
  proof (cases "reqparse_exec line")
    case None
    then show ?thesis using Cons by simp
  next
    case (Some pmr)
    obtain pre m rest where pmr: "pmr = (pre, m, rest)" by (cases pmr)
    obtain q where q: "ins m st = Some q"
      using Cons.prems Some pmr by (cases "ins m st") auto
    then have q': "ins' m st = Some q" by (rule assms(1))
    show ?thesis
    proof (cases q)
      case (Inl a)
      then show ?thesis using Cons.prems Some pmr q q' by simp
    next
      case (Inr ts)
      obtain tx st1 where ts: "ts = (tx, st1)" by (cases ts)
      have "scan ins ext lines
              (repair ext (pre @ tx @ rest) assemble @ [pre @ tx @ rest]) st1 = Some r"
        using Cons.prems Some pmr q Inr ts by simp
      then have "scan ins' ext lines
              (repair ext (pre @ tx @ rest) assemble @ [pre @ tx @ rest]) st1 = Some r"
        by (rule Cons.IH)
      then show ?thesis using Some pmr q' Inr ts by simp
    qed
  qed
qed

lemma insert_file_rec_mono:
  assumes "\<And>d e r s x. rec d e r s = Some x \<Longrightarrow> rec' d e r s = Some x"
    and "insert_file rec eng h ext reference m st = Some r"
  shows "insert_file rec' eng h ext reference m st = Some r"
  using assms(2)
  by (auto simp: insert_file_def Let_def split: option.splits if_splits intro: assms(1))

lemma directive_Suc_mono:
  "directive n eng h data ext reference st = Some r \<Longrightarrow>
   directive (Suc n) eng h data ext reference st = Some r"
proof (induction n arbitrary: data ext reference st r)
  case 0
  then show ?case by simp
next
  case (Suc n)
  let ?ref = "reference_or h reference"
  obtain q where q: "scan (insert_file (directive n eng h) eng h ext ?ref) ext
                       (split_on line_end data) [] st = Some q"
    using Suc.prems
    by (cases "scan (insert_file (directive n eng h) eng h ext ?ref) ext
                 (split_on line_end data) [] st") auto
  have "scan (insert_file (directive (Suc n) eng h) eng h ext ?ref) ext
          (split_on line_end data) [] st = Some q"
  proof (rule scan_ins_mono [OF _ q])
    fix m st' x
    assume "insert_file (directive n eng h) eng h ext ?ref m st' = Some x"
    then show "insert_file (directive (Suc n) eng h) eng h ext ?ref m st' = Some x"
      by (rule insert_file_rec_mono [rotated]) (rule Suc.IH)
  qed
  then show ?case
    using Suc.prems q by simp
qed

lemma directive_fuel_mono:
  "directive n eng h data ext reference st = Some r \<Longrightarrow>
   directive (n + k) eng h data ext reference st = Some r"
proof (induction k)
  case 0
  then show ?case by simp
next
  case (Suc k)
  then have "directive (n + k) eng h data ext reference st = Some r" by blast
  then have "directive (Suc (n + k)) eng h data ext reference st = Some r"
    by (rule directive_Suc_mono)
  then show ?case by (simp only: add_Suc_right)
qed


subsection \<open>Texts with a single directive\<close>

lemma scan_plain:
  assumes "\<forall>l \<in> set ls. reqparse_exec l = None"
  shows "scan ins ext ls assemble st = Some (Inr (assemble @ ls, st))"
  using assms by (induction ls arbitrary: assemble) simp_all

lemma scan_append:
  "scan ins ext (xs @ ys) assemble st =
     (case scan ins ext xs assemble st of
        None \<Rightarrow> None
      | Some (Inl a) \<Rightarrow> Some (Inl a)
      | Some (Inr (assemble', st')) \<Rightarrow> scan ins ext ys assemble' st')"
  by (induction xs arbitrary: assemble st)
    (auto split: option.splits sum.splits prod.splits)

lemma map_filter_single:
  assumes "List.map_filter f xs = [y]"
  shows "\<exists>pre l post. xs = pre @ l # post \<and> f l = Some y
           \<and> (\<forall>x \<in> set pre. f x = None) \<and> (\<forall>x \<in> set post. f x = None)"
  using assms
proof (induction xs)
  case Nil
  then show ?case by (simp add: List.map_filter_simps)
next
  case (Cons x xs)
  show ?case
  proof (cases "f x")
    case None
    then have "List.map_filter f xs = [y]"
      using Cons.prems by (simp add: List.map_filter_simps)
    then obtain pre l post where
      "xs = pre @ l # post" "f l = Some y"
      "\<forall>x \<in> set pre. f x = None" "\<forall>x \<in> set post. f x = None"
      using Cons.IH by blast
    then have "x # xs = (x # pre) @ l # post \<and> f l = Some y
           \<and> (\<forall>z \<in> set (x # pre). f z = None) \<and> (\<forall>z \<in> set post. f z = None)"
      using None by simp
    then show ?thesis by blast
  next
    case (Some z)
    then have zy: "z = y" and rest: "List.map_filter f xs = []"
      using Cons.prems by (simp_all add: List.map_filter_simps)
    have "\<forall>x \<in> set xs. f x = None"
      using rest by (induction xs) (auto simp: List.map_filter_simps split: option.splits)
    then have "x # xs = [] @ x # xs \<and> f x = Some y
           \<and> (\<forall>z \<in> set []. f z = None) \<and> (\<forall>z \<in> set xs. f z = None)"
      using Some zy by simp
    then show ?thesis by blast
  qed
qed

lemma scan_sole:
  assumes "directives_of data = [m]"
  shows "\<exists>pre post p r.
           scan ins ext (split_on line_end data) [] st =
             (case ins m st of
                None \<Rightarrow> None
              | Some (Inl a) \<Rightarrow> Some (Inl a)
              | Some (Inr (tx, st')) \<Rightarrow>
                  Some (Inr (repair ext (p @ tx @ r) pre @ [p @ tx @ r] @ post, st')))"
proof -
  obtain pre l post where
    sp: "split_on line_end data = pre @ l # post" and
    l: "map_option (\<lambda>pmr. fst (snd pmr)) (reqparse_exec l) = Some m" and
    pre: "\<forall>x \<in> set pre. map_option (\<lambda>pmr. fst (snd pmr)) (reqparse_exec x) = None" and
    post: "\<forall>x \<in> set post. map_option (\<lambda>pmr. fst (snd pmr)) (reqparse_exec x) = None"
    using map_filter_single [OF assms [unfolded directives_of_def]] by blast
  obtain p r where lm: "reqparse_exec l = Some (p, m, r)"
    using l by (cases "reqparse_exec l") auto
  have pre': "\<forall>x \<in> set pre. reqparse_exec x = None" using pre by simp
  have post': "\<forall>x \<in> set post. reqparse_exec x = None" using post by simp
  have "scan ins ext (split_on line_end data) [] st =
             (case ins m st of
                None \<Rightarrow> None
              | Some (Inl a) \<Rightarrow> Some (Inl a)
              | Some (Inr (tx, st')) \<Rightarrow>
                  Some (Inr (repair ext (p @ tx @ r) pre @ [p @ tx @ r] @ post, st')))"
    by (simp add: sp scan_append scan_plain [OF pre'] scan_plain [OF post'] lm
        split: option.splits sum.splits prod.splits)
  then show ?thesis by blast
qed

lemma directive_sole_abort:
  assumes "directives_of data = [m]"
    and "insert_file (directive n eng h) eng h ext (reference_or h reference) m st = Some (Inl a)"
  shows "directive (Suc n) eng h data ext reference st = Some (Inl a)"
proof -
  obtain pre post p r where
    "scan (insert_file (directive n eng h) eng h ext (reference_or h reference)) ext
       (split_on line_end data) [] st = Some (Inl a)"
    using scan_sole [OF assms(1), of "insert_file (directive n eng h) eng h ext (reference_or h reference)" ext st]
      assms(2) by auto
  then show ?thesis by simp
qed

lemma directive_sole_text:
  assumes "directives_of data = [m]"
    and "insert_file (directive n eng h) eng h ext (reference_or h reference) m st =
           Some (Inr (tx, st'))"
  shows "\<exists>T. directive (Suc n) eng h data ext reference st = Some (Inr (T, st'))"
proof -
  obtain ls where
    "scan (insert_file (directive n eng h) eng h ext (reference_or h reference)) ext
       (split_on line_end data) [] st = Some (Inr (ls, st'))"
    using scan_sole [OF assms(1), of "insert_file (directive n eng h) eng h ext (reference_or h reference)" ext st]
      assms(2) by auto
  then show ?thesis by simp
qed

lemma insert_file_fresh:
  assumes "target m = Some f" and "path_resolve h reference f = loc"
    and "readFile h loc = Some tx" and "loc \<notin> set (seen st)"
  shows "insert_file rec eng h ext reference m st =
           rec (included h ext loc tx) ext (path_dirname h loc) (st\<lparr>seen := seen st @ [loc]\<rparr>)"
  using assms by (simp add: insert_file_def included_def)

text \<open>
  As soon as the resolved path is in \<open>seen\<close>, \<open>insert\<close> reports the cycle; it reads
  nothing and does not call \<open>directive\<close>.
\<close>

lemma insert_file_seen:
  assumes "target m = Some f" and "path_resolve h reference f = loc"
    and "readFile h loc = Some tx" and "loc \<in> set (seen st)"
  shows "insert_file rec eng h ext reference m st =
           critical_false eng (DirectiveCycle (matched m)) st"
  using assms by (simp add: insert_file_def)


lemma critical_false_modes:
  "critical_false eng err st =
     Some (if cli eng then Inl (Exit err)
           else if listening eng then Inr (''false'', st\<lparr>errors := errors st @ [err]\<rparr>)
           else Inl (Uncaught err))"
  by (simp add: critical_false_def critical_def)

lemma two_file_cycle_depth3:
  assumes a: "directives_of data = [m1]" "target m1 = Some fb"
      "path_resolve h (reference_or h reference) fb = pb"
      "readFile h pb = Some tb" "pb \<notin> set (seen st)"
    and b: "directives_of (included h ext pb tb) = [m2]" "target m2 = Some fa"
      "path_resolve h (reference_or h (path_dirname h pb)) fa = pa"
      "readFile h pa = Some ta" "pa \<notin> set (seen st)" "pa \<noteq> pb"
    and c: "directives_of (included h ext pa ta) = [m3]" "target m3 = Some fb'"
      "path_resolve h (reference_or h (path_dirname h pa)) fb' = pb"
  shows "\<exists>T. directive (Suc (Suc (Suc 0))) eng h data ext reference st =
           Some (if cli eng then Inl (Exit (DirectiveCycle (matched m3)))
                 else if listening eng
                 then Inr (T, st\<lparr>seen := seen st @ [pb, pa],
                                  errors := errors st @ [DirectiveCycle (matched m3)]\<rparr>)
                 else Inl (Uncaught (DirectiveCycle (matched m3))))"
proof -
  let ?E = "DirectiveCycle (matched m3)"
  let ?st1 = "st\<lparr>seen := seen st @ [pb]\<rparr>"
  let ?st2 = "?st1\<lparr>seen := seen ?st1 @ [pa]\<rparr>"
  let ?st3 = "st\<lparr>seen := seen st @ [pb, pa], errors := errors st @ [?E]\<rparr>"
  have fresh2: "pa \<notin> set (seen ?st1)"
    using b(5,6) by simp
  have seen3: "pb \<in> set (seen ?st2)"
    by simp
  have i3: "insert_file (directive 0 eng h) eng h ext (reference_or h (path_dirname h pa)) m3 ?st2 =
              critical_false eng ?E ?st2"
    using c(2,3) a(4) seen3 by (rule insert_file_seen)
  have i2: "insert_file (directive (Suc 0) eng h) eng h ext (reference_or h (path_dirname h pb)) m2 ?st1 =
              directive (Suc 0) eng h (included h ext pa ta) ext (path_dirname h pa) ?st2"
    using b(2,3,4) fresh2 by (rule insert_file_fresh)
  have i1: "insert_file (directive (Suc (Suc 0)) eng h) eng h ext (reference_or h reference) m1 st =
              directive (Suc (Suc 0)) eng h (included h ext pb tb) ext (path_dirname h pb) ?st1"
    using a(2,3,4,5) by (rule insert_file_fresh)
  show ?thesis
  proof (cases "\<not> cli eng \<and> listening eng")
    case True
    have s3: "?st2\<lparr>errors := errors ?st2 @ [?E]\<rparr> = ?st3" by simp
    have "insert_file (directive 0 eng h) eng h ext (reference_or h (path_dirname h pa)) m3 ?st2 =
            Some (Inr (''false'', ?st3))"
      using True by (simp only: i3 critical_false_modes s3 if_True if_False)
    then obtain T3 where
      "directive (Suc 0) eng h (included h ext pa ta) ext (path_dirname h pa) ?st2 =
         Some (Inr (T3, ?st3))"
      using directive_sole_text [OF c(1)] by blast
    then have "insert_file (directive (Suc 0) eng h) eng h ext
                 (reference_or h (path_dirname h pb)) m2 ?st1 = Some (Inr (T3, ?st3))"
      by (simp only: i2)
    then obtain T2 where
      "directive (Suc (Suc 0)) eng h (included h ext pb tb) ext (path_dirname h pb) ?st1 =
         Some (Inr (T2, ?st3))"
      using directive_sole_text [OF b(1)] by blast
    then have "insert_file (directive (Suc (Suc 0)) eng h) eng h ext (reference_or h reference) m1 st =
                 Some (Inr (T2, ?st3))"
      by (simp only: i1)
    then obtain T1 where
      "directive (Suc (Suc (Suc 0))) eng h data ext reference st = Some (Inr (T1, ?st3))"
      using directive_sole_text [OF a(1)] by blast
    then have "directive (Suc (Suc (Suc 0))) eng h data ext reference st =
           Some (if cli eng then Inl (Exit ?E)
                 else if listening eng then Inr (T1, ?st3)
                 else Inl (Uncaught ?E))"
      using True by simp
    then show ?thesis by (rule exI)
  next
    case False
    define x where "x = (if cli eng then Exit ?E else Uncaught ?E)"
    have "insert_file (directive 0 eng h) eng h ext (reference_or h (path_dirname h pa)) m3 ?st2 =
            Some (Inl x)"
      using False by (auto simp only: i3 critical_false_modes x_def split: if_splits)
    then have "directive (Suc 0) eng h (included h ext pa ta) ext (path_dirname h pa) ?st2 =
                 Some (Inl x)"
      by (rule directive_sole_abort [OF c(1)])
    then have "insert_file (directive (Suc 0) eng h) eng h ext
                 (reference_or h (path_dirname h pb)) m2 ?st1 = Some (Inl x)"
      by (simp only: i2)
    then have "directive (Suc (Suc 0)) eng h (included h ext pb tb) ext (path_dirname h pb) ?st1 =
                 Some (Inl x)"
      by (rule directive_sole_abort [OF b(1)])
    then have "insert_file (directive (Suc (Suc 0)) eng h) eng h ext (reference_or h reference) m1 st =
                 Some (Inl x)"
      by (simp only: i1)
    then have "directive (Suc (Suc (Suc 0))) eng h data ext reference st = Some (Inl x)"
      by (rule directive_sole_abort [OF a(1)])
    then have "directive (Suc (Suc (Suc 0))) eng h data ext reference st =
           Some (if cli eng then Inl (Exit ?E)
                 else if listening eng then Inr ([], ?st3)
                 else Inl (Uncaught ?E))"
      using False by (auto simp: x_def)
    then show ?thesis by (rule exI)
  qed
qed

text \<open>
  C4: directive resolution returns on every input: a recursion no deeper than the number
  of files on the disk plus one reaches a result, and any deeper bound gives the same
  result. For two files that include each other it fails with the cycle error as soon as
  a resolved path is in \<open>seen\<close>. The text \<open>data\<close> of the first file has one directive,
  which resolves to the existing file \<open>pb\<close>; the text handed on for \<open>pb\<close> has one
  directive, which resolves to the existing file \<open>pa\<close>; the text handed on for \<open>pa\<close>
  has one directive, which resolves to \<open>pb\<close> again. Then the resolution ends at the
  third level with the cycle error for that directive: in CLI mode the process exits
  with it, without a listener it is thrown, and with a listener it is emitted (the only
  error emitted) and the resolution returns.
\<close>

theorem directive_cycle_terminates:
  assumes "directives_of data = [m1]" and "target m1 = Some fb"
    and "path_resolve h (reference_or h reference) fb = pb"
    and "readFile h pb = Some tb" and "pb \<notin> set (seen st)"
    and "directives_of (included h ext pb tb) = [m2]" and "target m2 = Some fa"
    and "path_resolve h (reference_or h (path_dirname h pb)) fa = pa"
    and "readFile h pa = Some ta" and "pa \<notin> set (seen st)" and "pa \<noteq> pb"
    and "directives_of (included h ext pa ta) = [m3]" and "target m3 = Some fb'"
    and "path_resolve h (reference_or h (path_dirname h pa)) fb' = pb"
  shows "(\<exists>r. \<forall>k. directive (Suc (length (disk h)) + k) eng h data0 ext0 reference0 st0 = Some r)
       \<and> (\<exists>T. \<forall>k. directive (3 + k) eng h data ext reference st =
             Some (if cli eng then Inl (Exit (DirectiveCycle (matched m3)))
                   else if listening eng
                   then Inr (T, st\<lparr>seen := seen st @ [pb, pa],
                                    errors := errors st @ [DirectiveCycle (matched m3)]\<rparr>)
                   else Inl (Uncaught (DirectiveCycle (matched m3)))))"
proof -
  obtain r where "directive (Suc (length (disk h))) eng h data0 ext0 reference0 st0 = Some r"
    using directive_returns by blast
  then have "\<forall>k. directive (Suc (length (disk h)) + k) eng h data0 ext0 reference0 st0 = Some r"
    using directive_fuel_mono by blast
  then have general: "\<exists>r. \<forall>k. directive (Suc (length (disk h)) + k) eng h data0 ext0 reference0 st0 = Some r"
    by (rule exI)
  obtain T where
    d3: "directive (Suc (Suc (Suc 0))) eng h data ext reference st =
           Some (if cli eng then Inl (Exit (DirectiveCycle (matched m3)))
                 else if listening eng
                 then Inr (T, st\<lparr>seen := seen st @ [pb, pa],
                                  errors := errors st @ [DirectiveCycle (matched m3)]\<rparr>)
                 else Inl (Uncaught (DirectiveCycle (matched m3))))"
    using two_file_cycle_depth3 [OF assms] by blast
  have three: "(3::nat) = Suc (Suc (Suc 0))" by simp
  have "\<forall>k. directive (3 + k) eng h data ext reference st =
             Some (if cli eng then Inl (Exit (DirectiveCycle (matched m3)))
                   else if listening eng
                   then Inr (T, st\<lparr>seen := seen st @ [pb, pa],
                                    errors := errors st @ [DirectiveCycle (matched m3)]\<rparr>)
                   else Inl (Uncaught (DirectiveCycle (matched m3))))"
    using directive_fuel_mono [OF d3] by (simp only: three) blast
  then have cycle: "\<exists>T. \<forall>k. directive (3 + k) eng h data ext reference st =
             Some (if cli eng then Inl (Exit (DirectiveCycle (matched m3)))
                   else if listening eng
                   then Inr (T, st\<lparr>seen := seen st @ [pb, pa],
                                    errors := errors st @ [DirectiveCycle (matched m3)]\<rparr>)
                   else Inl (Uncaught (DirectiveCycle (matched m3))))"
    by (rule exI)
  show ?thesis
    using general cycle by (rule conjI)
qed

theorem directive_cycle_terminates_witness:
  "readFile
     \<lparr>disk = [(''/app/a.js'', ''// [square] @import \"b.js\"''),
              (''/app/b.js'', ''/* [square] @require \"a.js\" */'')],
      path_resolve = (\<lambda>r f. r @ ''/'' @ f), path_dirname = (\<lambda>p. ''/app''),
      path_extname = (\<lambda>p. ''.js''),
      styles = (\<lambda>e. Some \<lparr>header = ''/*'', body = '' *'', footer = '' */''\<rparr>),
      package_path = ''/app''\<rparr> ''/app/b.js'' = Some ''/* [square] @require \"a.js\" */''
   \<and> (\<forall>k. directive (3 + k) \<lparr>cli = True, listening = False\<rparr>
     \<lparr>disk = [(''/app/a.js'', ''// [square] @import \"b.js\"''),
              (''/app/b.js'', ''/* [square] @require \"a.js\" */'')],
      path_resolve = (\<lambda>r f. r @ ''/'' @ f), path_dirname = (\<lambda>p. ''/app''),
      path_extname = (\<lambda>p. ''.js''),
      styles = (\<lambda>e. Some \<lparr>header = ''/*'', body = '' *'', footer = '' */''\<rparr>),
      package_path = ''/app''\<rparr>
     ''// [square] @import \"b.js\"'' ''js'' ''/app'' \<lparr>seen = [], errors = []\<rparr> =
     Some (Inl (Exit (DirectiveCycle ''// [square] @import \"b.js\"''))))"
proof -
  let ?h = "\<lparr>disk = [(''/app/a.js'', ''// [square] @import \"b.js\"''),
              (''/app/b.js'', ''/* [square] @require \"a.js\" */'')],
      path_resolve = (\<lambda>r f. r @ ''/'' @ f), path_dirname = (\<lambda>p. ''/app''),
      path_extname = (\<lambda>p. ''.js''),
      styles = (\<lambda>e. Some \<lparr>header = ''/*'', body = '' *'', footer = '' */''\<rparr>),
      package_path = ''/app''\<rparr>"
  let ?ma = "\<lparr>matched = ''// [square] @import \"b.js\"'', commenttype = ''//'',
              statement = ''import'', target = Some ''b.js'', trailing = []\<rparr>"
  let ?mb = "\<lparr>matched = ''/* [square] @require \"a.js\" */'', commenttype = ''/*'',
              statement = ''require'', target = Some ''a.js'', trailing = '' */''\<rparr>"
  let ?st = "\<lparr>seen = [], errors = []\<rparr>"
  have a1: "directives_of ''// [square] @import \"b.js\"'' = [?ma]" by code_simp
  have a2: "target ?ma = Some ''b.js''" by simp
  have a3: "path_resolve ?h (reference_or ?h ''/app'') ''b.js'' = ''/app/b.js''"
    by (simp add: reference_or_def)
  have a4: "readFile ?h ''/app/b.js'' = Some ''/* [square] @require \"a.js\" */''"
    by (simp add: readFile_def)
  have a5: "''/app/b.js'' \<notin> set (seen ?st)" by simp
  have b1: "directives_of (included ?h ''js'' ''/app/b.js'' ''/* [square] @require \"a.js\" */'') = [?mb]"
    by code_simp
  have b2: "target ?mb = Some ''a.js''" by simp
  have b3: "path_resolve ?h (reference_or ?h (path_dirname ?h ''/app/b.js'')) ''a.js'' = ''/app/a.js''"
    by (simp add: reference_or_def)
  have b4: "readFile ?h ''/app/a.js'' = Some ''// [square] @import \"b.js\"''"
    by (simp add: readFile_def)
  have b5: "''/app/a.js'' \<notin> set (seen ?st)" by simp
  have b6: "''/app/a.js'' \<noteq> ''/app/b.js''" by simp
  have c1: "directives_of (included ?h ''js'' ''/app/a.js'' ''// [square] @import \"b.js\"'') = [?ma]"
    by code_simp
  have c3: "path_resolve ?h (reference_or ?h (path_dirname ?h ''/app/a.js'')) ''b.js'' = ''/app/b.js''"
    by (simp add: reference_or_def)
  note t = directive_cycle_terminates [OF a1 a2 a3 a4 a5 b1 b2 b3 b4 b5 b6 c1 a2 c3,
      of "\<lparr>cli = True, listening = False\<rparr>", THEN conjunct2]
  have "\<forall>k. directive (3 + k) \<lparr>cli = True, listening = False\<rparr> ?h
     ''// [square] @import \"b.js\"'' ''js'' ''/app'' ?st =
     Some (Inl (Exit (DirectiveCycle ''// [square] @import \"b.js\"'')))"
    using t by simp
  then show ?thesis using a4 by (rule conjI [rotated])
qed

subsection \<open>The repair of the line before an include\<close>


lemma charAt_last: "s \<noteq> [] \<Longrightarrow> charAt s (int (length s) - 1) = [last s]"
  by (simp add: charAt_def last_conv_nth nat_diff_distrib')



lemma length_repair: "length (repair ext inserted assemble) = length assemble"
  by (simp add: repair_def split: option.splits)




subsection \<open>Concatenation of scripts\<close>

lemma dropWhile_fixed: "xs = [] \<or> \<not> P (hd xs) \<Longrightarrow> dropWhile P xs = xs"
  by (cases xs) auto

lemma last_dropWhile: "dropWhile P xs \<noteq> [] \<Longrightarrow> last (dropWhile P xs) = last xs"
  by (induction xs) (auto split: if_splits)

lemma trim_trim: "trim (trim s) = trim s"
proof -
  define t where "t = dropWhile is_space s"
  define u where "u = dropWhile is_space (rev t)"
  have ts: "trim s = rev u" by (simp add: trim_def t_def u_def)
  have front: "dropWhile is_space (rev u) = rev u"
  proof (cases "u = []")
    case True
    then show ?thesis by simp
  next
    case False
    then have "last u = last (rev t)" unfolding u_def by (rule last_dropWhile)
    moreover have "rev t \<noteq> []" using False u_def by auto
    ultimately have "last u = hd t" by (simp add: last_rev)
    moreover have "t \<noteq> []" using \<open>rev t \<noteq> []\<close> by simp
    then have "\<not> is_space (hd t)" unfolding t_def by (rule hd_dropWhile)
    ultimately have "\<not> is_space (hd (rev u))" using False by (simp add: hd_rev)
    then show ?thesis by (intro dropWhile_fixed) simp
  qed
  have rear: "dropWhile is_space u = u"
    unfolding u_def by (rule dropWhile_idem)
  show ?thesis
    by (simp add: ts trim_def [of "rev u"] front rear)
qed

lemma trim_last: "trim s \<noteq> [] \<Longrightarrow> \<not> is_space (last (trim s))"
proof -
  assume a: "trim s \<noteq> []"
  have "trim s = rev (dropWhile is_space (rev (dropWhile is_space s)))" by (simp add: trim_def)
  then have "last (trim s) = hd (dropWhile is_space (rev (dropWhile is_space s)))"
    using a by (simp add: last_rev)
  moreover have "dropWhile is_space (rev (dropWhile is_space s)) \<noteq> []"
    using a by (simp add: trim_def)
  ultimately show ?thesis by (simp add: hd_dropWhile)
qed

lemma semicolon_trimmed:
  "semicolon (trim s) =
     (if trim s \<noteq> [] \<and> (last (trim s) = CHR '')'' \<or> last (trim s) = CHR ''}'')
      then trim s @ '';'' else trim s)"
  by (auto simp: semicolon_def trim_trim charAt_last Let_def)

lemma reduce_example_plain:
  "document_of
     (reduce \<lparr>cli = False, listening = True\<rparr>
         \<lparr>disk = [], path_resolve = (\<lambda>r f. r @ ''/'' @ f), path_dirname = (\<lambda>p. ''/app''),
          path_extname = (\<lambda>p. ''.js''), styles = (\<lambda>e. None), package_path = ''/app''\<rparr>
         [''/app/a.js'', ''/app/b.js'']
         [\<lparr>m_extension = ''js'', m_output = ''js'', m_location = ''/app/a.js'', m_directory = ''/app'',
           m_content = ''var a=1'', m_compiler = None, m_dependencies = []\<rparr>,
          \<lparr>m_extension = ''js'', m_output = ''js'', m_location = ''/app/b.js'', m_directory = ''/app'',
           m_content = ''var b=2'', m_compiler = None, m_dependencies = []\<rparr>]
         ''web'' [''js''])
     ''js'' = Inr (None, Some ''var a=1\<newline>var b=2'')"
  by code_simp

lemma reduce_example_calls:
  "document_of
     (reduce \<lparr>cli = False, listening = True\<rparr>
         \<lparr>disk = [], path_resolve = (\<lambda>r f. r @ ''/'' @ f), path_dirname = (\<lambda>p. ''/app''),
          path_extname = (\<lambda>p. ''.js''), styles = (\<lambda>e. None), package_path = ''/app''\<rparr>
         [''/app/a.js'', ''/app/b.js'']
         [\<lparr>m_extension = ''js'', m_output = ''js'', m_location = ''/app/a.js'', m_directory = ''/app'',
           m_content = ''f()'', m_compiler = None, m_dependencies = []\<rparr>,
          \<lparr>m_extension = ''js'', m_output = ''js'', m_location = ''/app/b.js'', m_directory = ''/app'',
           m_content = ''g()'', m_compiler = None, m_dependencies = []\<rparr>]
         ''web'' [''js''])
     ''js'' = Inr (None, Some ''f();\<newline>g()'')"
  by code_simp

text \<open>
  C1 (as the code has it, amended): at a join boundary of the \<open>js\<close> document \<open>reduce\<close>
  appends a semicolon to the document so far exactly when that document ends with a
  closing parenthesis or a closing brace; then it appends a line feed and the next
  fragment and trims the result. Two \<open>js\<close> bundles with the contents \<open>var a=1\<close> and
  \<open>var b=2\<close> (on a host without comment styles) give the document
  \<open>var a=1\<close>, line feed, \<open>var b=2\<close>, with no semicolon; the contents \<open>f()\<close> and \<open>g()\<close>
  give \<open>f();\<close>, line feed, \<open>g()\<close>.
\<close>

theorem reduce_semicolon_after_paren_or_brace:
  assumes "m_output b = ''js''" and "''js'' \<in> set exts"
    and "memo r ''js'' = Some (trim s)"
    and "\<forall>det. preprocess eng h b det (reported r) = Inr (Inr c, errs')"
  shows "reduce_tree eng h plat exts totals (b # bs) r =
           reduce_tree eng h plat exts totals bs
             (r\<lparr>count := (case count r (m_extension b) of
                             None \<Rightarrow> count r
                           | Some k \<Rightarrow> (count r)(m_extension b \<mapsto> k - 1)),
                memo := (memo r)(''js'' \<mapsto>
                          trim ((if trim s \<noteq> []
                                    \<and> (last (trim s) = CHR '')'' \<or> last (trim s) = CHR ''}'')
                                 then trim s @ '';'' else trim s) @ [CHR 0x0A] @ c)),
                reported := errs'\<rparr>)
       \<and> document_of
           (reduce \<lparr>cli = False, listening = True\<rparr>
         \<lparr>disk = [], path_resolve = (\<lambda>r f. r @ ''/'' @ f), path_dirname = (\<lambda>p. ''/app''),
          path_extname = (\<lambda>p. ''.js''), styles = (\<lambda>e. None), package_path = ''/app''\<rparr>
         [''/app/a.js'', ''/app/b.js'']
         [\<lparr>m_extension = ''js'', m_output = ''js'', m_location = ''/app/a.js'', m_directory = ''/app'',
           m_content = ''var a=1'', m_compiler = None, m_dependencies = []\<rparr>,
          \<lparr>m_extension = ''js'', m_output = ''js'', m_location = ''/app/b.js'', m_directory = ''/app'',
           m_content = ''var b=2'', m_compiler = None, m_dependencies = []\<rparr>]
         ''web'' [''js''])
           ''js'' = Inr (None, Some ''var a=1\<newline>var b=2'')
       \<and> document_of
           (reduce \<lparr>cli = False, listening = True\<rparr>
         \<lparr>disk = [], path_resolve = (\<lambda>r f. r @ ''/'' @ f), path_dirname = (\<lambda>p. ''/app''),
          path_extname = (\<lambda>p. ''.js''), styles = (\<lambda>e. None), package_path = ''/app''\<rparr>
         [''/app/a.js'', ''/app/b.js'']
         [\<lparr>m_extension = ''js'', m_output = ''js'', m_location = ''/app/a.js'', m_directory = ''/app'',
           m_content = ''f()'', m_compiler = None, m_dependencies = []\<rparr>,
          \<lparr>m_extension = ''js'', m_output = ''js'', m_location = ''/app/b.js'', m_directory = ''/app'',
           m_content = ''g()'', m_compiler = None, m_dependencies = []\<rparr>]
         ''web'' [''js''])
           ''js'' = Inr (None, Some ''f();\<newline>g()'')"
proof -
  have step: "reduce_tree eng h plat exts totals (b # bs) r =
           reduce_tree eng h plat exts totals bs
             (r\<lparr>count := (case count r (m_extension b) of
                             None \<Rightarrow> count r
                           | Some k \<Rightarrow> (count r)(m_extension b \<mapsto> k - 1)),
                memo := (memo r)(''js'' \<mapsto>
                          trim ((if trim s \<noteq> []
                                    \<and> (last (trim s) = CHR '')'' \<or> last (trim s) = CHR ''}'')
                                 then trim s @ '';'' else trim s) @ [CHR 0x0A] @ c)),
                reported := errs'\<rparr>)"
    using assms by (simp add: Let_def semicolon_trimmed)
  show ?thesis
    using step reduce_example_plain reduce_example_calls by (intro conjI)
qed

text \<open>
  C1 as stated fails: the two bundles \<open>var a=1\<close> and \<open>var b=2\<close> do not give
  \<open>var a=1;\<close>, line feed, \<open>var b=2;\<close>, neither on a host without comment styles nor
  on one that wraps comments in \<open>/*\<close> and \<open>*/\<close>.
\<close>

theorem reduce_semicolon_counterexample:
  "document_of
     (reduce \<lparr>cli = False, listening = True\<rparr>
         \<lparr>disk = [], path_resolve = (\<lambda>r f. r @ ''/'' @ f), path_dirname = (\<lambda>p. ''/app''),
          path_extname = (\<lambda>p. ''.js''), styles = (\<lambda>e. None), package_path = ''/app''\<rparr>
         [''/app/a.js'', ''/app/b.js'']
         [\<lparr>m_extension = ''js'', m_output = ''js'', m_location = ''/app/a.js'', m_directory = ''/app'',
           m_content = ''var a=1'', m_compiler = None, m_dependencies = []\<rparr>,
          \<lparr>m_extension = ''js'', m_output = ''js'', m_location = ''/app/b.js'', m_directory = ''/app'',
           m_content = ''var b=2'', m_compiler = None, m_dependencies = []\<rparr>]
         ''web'' [''js''])
     ''js'' \<noteq> Inr (None, Some ''var a=1;\<newline>var b=2;'')
   \<and> document_of
     (reduce \<lparr>cli = False, listening = True\<rparr>
         \<lparr>disk = [], path_resolve = (\<lambda>r f. r @ ''/'' @ f), path_dirname = (\<lambda>p. ''/app''),
          path_extname = (\<lambda>p. ''.js''), styles = (\<lambda>e. Some \<lparr>header = ''/*'', body = '' *'', footer = '' */''\<rparr>), package_path = ''/app''\<rparr>
         [''/app/a.js'', ''/app/b.js'']
         [\<lparr>m_extension = ''js'', m_output = ''js'', m_location = ''/app/a.js'', m_directory = ''/app'',
           m_content = ''var a=1'', m_compiler = None, m_dependencies = []\<rparr>,
          \<lparr>m_extension = ''js'', m_output = ''js'', m_location = ''/app/b.js'', m_directory = ''/app'',
           m_content = ''var b=2'', m_compiler = None, m_dependencies = []\<rparr>]
         ''web'' [''js''])
     ''js'' \<noteq> Inr (None, Some ''var a=1;\<newline>var b=2;'')"
  by code_simp

theorem reduce_semicolon_after_paren_or_brace_witness:
  "memo \<lparr>memo = [''js'' \<mapsto> ''f()''], count = [''js'' \<mapsto> 1], reported = []\<rparr> ''js'' = Some (trim ''f()'')
   \<and> document_of
        (reduce_tree \<lparr>cli = False, listening = True\<rparr>
           \<lparr>disk = [], path_resolve = (\<lambda>r f. r @ ''/'' @ f), path_dirname = (\<lambda>p. ''/app''),
          path_extname = (\<lambda>p. ''.js''), styles = (\<lambda>e. None), package_path = ''/app''\<rparr>
           ''web'' [''js''] [''js'' \<mapsto> 2]
           [\<lparr>m_extension = ''js'', m_output = ''js'', m_location = ''/app/b.js'', m_directory = ''/app'',
           m_content = ''g()'', m_compiler = None, m_dependencies = []\<rparr>]
           \<lparr>memo = [''js'' \<mapsto> ''f()''], count = [''js'' \<mapsto> 1], reported = []\<rparr>)
        ''js'' = Inr (None, Some ''f();\<newline>g()'')"
proof -
  let ?eng = "\<lparr>cli = False, listening = True\<rparr>"
  let ?h = "\<lparr>disk = [], path_resolve = (\<lambda>r f. r @ ''/'' @ f), path_dirname = (\<lambda>p. ''/app''),
          path_extname = (\<lambda>p. ''.js''), styles = (\<lambda>e. None), package_path = ''/app''\<rparr>"
  let ?b = "\<lparr>m_extension = ''js'', m_output = ''js'', m_location = ''/app/b.js'', m_directory = ''/app'',
           m_content = ''g()'', m_compiler = None, m_dependencies = []\<rparr>"
  let ?r = "\<lparr>memo = [''js'' \<mapsto> ''f()''], count = [''js'' \<mapsto> (1::int)], reported = []\<rparr>"
  have t: "trim ''f()'' = ''f()''" by code_simp
  have h1: "m_output ?b = ''js''" by simp
  have h2: "''js'' \<in> set [''js'']" by simp
  have h3: "memo ?r ''js'' = Some (trim ''f()'')" by (simp add: t)
  have d: "resolve_directives ?eng ?h ''g()'' ''js'' ''/app'' \<lparr>seen = [], errors = []\<rparr> =
             Inr (''g()'', \<lparr>seen = [], errors = []\<rparr>)"
    by code_simp
  have h4: "\<forall>det. preprocess ?eng ?h ?b det (reported ?r) = Inr (Inr ''g()'', [])"
    using d by (simp add: preprocess_def commentWrap_def)
  note s = reduce_semicolon_after_paren_or_brace
    [where b = ?b and exts = "[''js'']" and r = ?r and s = "''f()''" and eng = ?eng and h = ?h
       and c = "''g()''" and errs' = "[]" and plat = "''web''" and totals = "[''js'' \<mapsto> 2]"
       and bs = "[]",
     OF h1 h2 h3 h4, THEN conjunct1]
  have j: "trim ''f();\<newline>g()'' = ''f();\<newline>g()''" by code_simp
  have "document_of (reduce_tree ?eng ?h ''web'' [''js''] [''js'' \<mapsto> 2] [?b] ?r) ''js'' =
          Inr (None, Some ''f();\<newline>g()'')"
    by (subst s) (simp add: t j document_of_def)
  then show ?thesis using h3 by (intro conjI)
qed

subsection \<open>Tags and the cache\<close>

lemma tag_world:
  "snd (tag th now w coll) =
     snd (cached_exec th now ''git show'' ''git show -s''
            (snd (cached_exec th now ''git branch'' ''git branch'' w)))"
  by (simp add: tag_def Let_def split: prod.splits)

lemma cached_exec_hit:
  "cache_has now (cache w) k \<Longrightarrow> snd (cached_exec th now k command w) = w"
  by (simp add: cached_exec_def)

lemma tag_first:
  assumes "\<not> cache_has t0 (cache w) ''git branch''" and "\<not> cache_has t0 (cache w) ''git show''"
  shows "snd (tag th t0 w coll) =
           w\<lparr>cache := (cache w)\<lparr>entries := (entries (cache w))
                          (''git branch'' \<mapsto> (shell th ''git branch'', t0),
                           ''git show'' \<mapsto> (shell th ''git show -s'', t0))\<rparr>,
             exec_log := exec_log w @ [''git branch'', ''git show -s'']\<rparr>"
proof -
  have "\<not> cache_has t0 (cache_set t0 (cache w) ''git branch'' (shell th ''git branch'')) ''git show''"
    using assms(2)
    by (auto simp: cache_has_def cache_get_def cache_set_def split: option.splits if_splits)
  then show ?thesis
    using assms(1) by (simp add: tag_world cached_exec_def cache_set_def)
qed

lemma tag_cached:
  assumes "entries (cache w) ''git branch'' = Some (vb, t0)"
    and "entries (cache w) ''git show'' = Some (vs, t0)"
    and "t < t0 + ttl (cache w)"
  shows "snd (tag th t w coll) = w"
proof -
  have "cache_has t (cache w) ''git branch''" and "cache_has t (cache w) ''git show''"
    using assms by (simp_all add: cache_has_def cache_get_def)
  then show ?thesis
    by (simp add: tag_world cached_exec_hit)
qed

lemma tag_calls_cached:
  assumes "entries (cache w) ''git branch'' = Some (vb, t0)"
    and "entries (cache w) ''git show'' = Some (vs, t0)"
    and "\<forall>call \<in> set calls. fst call < t0 + ttl (cache w)"
  shows "tag_calls th w calls = w"
  using assms(3)
proof (induction calls)
  case Nil
  show ?case by simp
next
  case (Cons call calls)
  have "snd (tag th (fst call) w (snd call)) = w"
    using assms(1,2) Cons.prems by (intro tag_cached) auto
  then show ?case using Cons by simp
qed

text \<open>
  C9 (amended): the cache holds no live entry for the branch and for the commit when
  \<open>tag\<close> is first called in a build, at the time \<open>t0\<close>. That call runs the two commands
  of the version control system, once each, and caches their outputs. Every later call
  made before the entries expire (less than the time-to-live after \<open>t0\<close>) runs no
  command and finds the two cached outputs, so over all these calls each command has
  run once.
\<close>

theorem tag_invokes_vcs_once_within_ttl:
  assumes "\<not> cache_has t0 (cache w) ''git branch''"
    and "\<not> cache_has t0 (cache w) ''git show''"
    and "\<forall>call \<in> set calls. fst call < t0 + ttl (cache w)"
  shows "exec_log (tag_calls th w ((t0, c0) # calls)) =
           exec_log w @ [''git branch'', ''git show -s'']
       \<and> (\<forall>call \<in> set calls.
            cache_get (fst call) (cache (tag_calls th w ((t0, c0) # calls))) ''git branch'' =
              Some (shell th ''git branch'')
          \<and> cache_get (fst call) (cache (tag_calls th w ((t0, c0) # calls))) ''git show'' =
              Some (shell th ''git show -s''))"
proof -
  let ?w1 = "w\<lparr>cache := (cache w)\<lparr>entries := (entries (cache w))
                          (''git branch'' \<mapsto> (shell th ''git branch'', t0),
                           ''git show'' \<mapsto> (shell th ''git show -s'', t0))\<rparr>,
             exec_log := exec_log w @ [''git branch'', ''git show -s'']\<rparr>"
  have first: "snd (tag th t0 w c0) = ?w1"
    using assms(1,2) by (rule tag_first)
  have b: "entries (cache ?w1) ''git branch'' = Some (shell th ''git branch'', t0)" by simp
  have s: "entries (cache ?w1) ''git show'' = Some (shell th ''git show -s'', t0)" by simp
  have live: "\<forall>call \<in> set calls. fst call < t0 + ttl (cache ?w1)"
    using assms(3) by simp
  have rest: "tag_calls th ?w1 calls = ?w1"
    using b s live by (rule tag_calls_cached)
  have all: "tag_calls th w ((t0, c0) # calls) = ?w1"
    by (simp add: first rest)
  have "\<forall>call \<in> set calls.
            cache_get (fst call) (cache ?w1) ''git branch'' = Some (shell th ''git branch'')
          \<and> cache_get (fst call) (cache ?w1) ''git show'' = Some (shell th ''git show -s'')"
    using assms(3) by (simp add: cache_get_def)
  then show ?thesis
    by (simp only: all) simp
qed

text \<open>
  C9 as stated fails: in one build, a call of \<open>tag\<close> three minutes after the first
  finds the entries expired and runs both commands a second time.
\<close>

theorem tag_invokes_vcs_once_counterexample:
  "exec_log
     (tag_calls
        \<lparr>shell = (\<lambda>c. if c = ''git branch'' then ''* master'' else ''commit 1a2b3c''),
         md5 = (\<lambda>s. ''d41d8cd9''), date = ''11/3/2026'', year = 2026, user = ''anonymous'',
         hostname = ''localhost'', env = ''development'', config_tags = []\<rparr>
        \<lparr>cache = cache_start \<lparr>running = False, ttl = 180000, entries = Map.empty\<rparr>,
         exec_log = []\<rparr>
        [(0, []), (180000, [])]) =
   [''git branch'', ''git show -s'', ''git branch'', ''git show -s'']"
  by (simp add: tag_world cached_exec_def cache_has_def cache_get_def cache_set_def
      cache_start_def)

theorem tag_invokes_vcs_once_within_ttl_witness:
  "\<not> cache_has 0 (cache_start \<lparr>running = False, ttl = 180000, entries = Map.empty\<rparr>) ''git branch''
   \<and> exec_log
     (tag_calls
        \<lparr>shell = (\<lambda>c. if c = ''git branch'' then ''* master'' else ''commit 1a2b3c''),
         md5 = (\<lambda>s. ''d41d8cd9''), date = ''11/3/2026'', year = 2026, user = ''anonymous'',
         hostname = ''localhost'', env = ''development'', config_tags = []\<rparr>
        \<lparr>cache = cache_start \<lparr>running = False, ttl = 180000, entries = Map.empty\<rparr>,
         exec_log = []\<rparr>
        ((0, []) # [(5, []), (179999, [])])) =
   [''git branch'', ''git show -s'']"
proof -
  let ?th = "\<lparr>shell = (\<lambda>c. if c = ''git branch'' then ''* master'' else ''commit 1a2b3c''),
         md5 = (\<lambda>s. ''d41d8cd9''), date = ''11/3/2026'', year = 2026, user = ''anonymous'',
         hostname = ''localhost'', env = ''development'', config_tags = []\<rparr>"
  let ?w = "\<lparr>cache = cache_start \<lparr>running = False, ttl = 180000, entries = Map.empty\<rparr>,
         exec_log = []\<rparr>"
  have h1: "\<not> cache_has 0 (cache ?w) ''git branch''"
    by (simp add: cache_has_def cache_get_def cache_start_def)
  have h2: "\<not> cache_has 0 (cache ?w) ''git show''"
    by (simp add: cache_has_def cache_get_def cache_start_def)
  have h3: "\<forall>call \<in> set [(5, []), (179999, [])]. fst call < 0 + ttl (cache ?w)"
    by (simp add: cache_start_def)
  note t = tag_invokes_vcs_once_within_ttl [OF h1 h2 h3, of ?th "[]", THEN conjunct1]
  show ?thesis
    using h1 t by simp
qed

end
